theory Spec2Isabelle
  imports Complex_Main "HOL-Library.Char_ord" "HOL-Library.List_Lexorder"
begin

section \<open>Errors\<close>

text \<open>
  The exceptions the modelled functions can raise. A function that can raise returns
  \<open>error + 'a\<close>, with \<open>Inl\<close> for the exception.
\<close>

datatype error = ZeroDivisionError | ValueError | IndexError | FileNotFoundError | OverflowError

section \<open>Padding calculator (lib/dataset.py, make_padding)\<close>

text \<open>
  Python integers are unbounded, so they are \<open>int\<close>. Python's \<open>%\<close> takes the sign of
  the divisor, as \<open>mod\<close> on \<open>int\<close> does; \<open>width % 0\<close> raises ZeroDivisionError,
  which happens exactly when \<open>cropsize = 0\<close> and \<open>offset = 0\<close>.
\<close>

definition make_padding :: "int \<Rightarrow> int \<Rightarrow> int \<Rightarrow> error + (int \<times> int \<times> int)" where
  "make_padding width cropsize offset =
     (let left = offset;
          roi_size = cropsize - left * 2;
          roi_size = (if roi_size = 0 then cropsize else roi_size)
      in if roi_size = 0 then Inl ZeroDivisionError
         else Inr (left, roi_size - (width mod roi_size) + left, roi_size))"

section \<open>Arrays\<close>

text \<open>
  A spectrogram is a numpy array with axes [channel, frequency bin, time frame]: a list
  of channels, each a list of rows (one per bin), each a list of frames. The embedding
  covers rectangular arrays with at least one channel and one bin, so that
  \<open>X.shape[2]\<close> can be read off the first row.

  Input entries are finite numbers (\<open>real\<close> for magnitudes, \<open>complex\<close> for
  cached spectrograms), given by their exact values. numpy does not raise on a division
  by zero: it warns and stores nan or inf. Computed entries are therefore
  \<open>'a npval\<close>: \<open>Fin x\<close> is the number \<open>x\<close>, \<open>NonFin\<close> stands for nan and
  the infinities, and arithmetic on \<open>NonFin\<close> stays \<open>NonFin\<close>.

  \<open>np_div\<close> and \<open>np_mul\<close> are the exact quotient and product; the training patch
  builder uses them for its complex entries, whose rounding is not modelled. The
  reconstruction engine and the sample sizes of the resampling use the rounded
  operations of the section on floating-point arithmetic below.
\<close>

type_synonym 'a arr3 = "'a list list list"

datatype 'a npval = Fin 'a | NonFin

definition has_shape :: "'a arr3 \<Rightarrow> nat \<Rightarrow> nat \<Rightarrow> nat \<Rightarrow> bool" where
  "has_shape X c f w \<longleftrightarrow>
     length X = c \<and> (\<forall>ch \<in> set X. length ch = f \<and> (\<forall>row \<in> set ch. length row = w))"

definition ntime :: "'a arr3 \<Rightarrow> nat" where
  \<comment> \<open>\<open>X.shape[2]\<close>\<close>
  "ntime X = (case X of [] \<Rightarrow> 0 | ch # _ \<Rightarrow> (case ch of [] \<Rightarrow> 0 | row # _ \<Rightarrow> length row))"

definition entries :: "'a arr3 \<Rightarrow> 'a list" where
  "entries X = concat (concat X)"

definition amax :: "real arr3 \<Rightarrow> error + real" where
  \<comment> \<open>\<open>X.max()\<close>: ValueError on an array without elements\<close>
  "amax X = (if entries X = [] then Inl ValueError else Inr (Max (set (entries X))))"

definition np_div :: "'a::field \<Rightarrow> 'a \<Rightarrow> 'a npval" where
  "np_div x c = (if c = 0 then NonFin else Fin (x / c))"

definition np_mul :: "'a::field npval \<Rightarrow> 'a \<Rightarrow> 'a npval" where
  "np_mul v c = (case v of Fin x \<Rightarrow> Fin (x * c) | NonFin \<Rightarrow> NonFin)"

definition pad_time :: "'a \<Rightarrow> int \<Rightarrow> int \<Rightarrow> 'a arr3 \<Rightarrow> error + 'a arr3" where
  \<comment> \<open>\<open>np.pad(A, ((0, 0), (0, 0), (l, r)), mode='constant')\<close>: ValueError on a negative
      pad amount\<close>
  "pad_time z l r A =
     (if l < 0 \<or> r < 0 then Inl ValueError
      else Inr (map (map (\<lambda>row. replicate (nat l) z @ row @ replicate (nat r) z)) A))"

text \<open>
  Python slices: a negative bound counts from the end, and both bounds are clipped to
  the length of the list.
\<close>

definition py_index :: "nat \<Rightarrow> int \<Rightarrow> nat" where
  "py_index n i = (if i < 0 then nat (max 0 (int n + i)) else min n (nat i))"

definition py_slice :: "int \<Rightarrow> int \<Rightarrow> 'a list \<Rightarrow> 'a list" where
  \<comment> \<open>\<open>xs[lo:hi]\<close>\<close>
  "py_slice lo hi xs =
     (let a = py_index (length xs) lo; b = py_index (length xs) hi
      in take (b - a) (drop a xs))"

definition py_slice_from :: "int \<Rightarrow> 'a list \<Rightarrow> 'a list" where
  \<comment> \<open>\<open>xs[lo:]\<close>\<close>
  "py_slice_from lo xs = drop (py_index (length xs) lo) xs"

definition py_slice_to :: "int \<Rightarrow> 'a list \<Rightarrow> 'a list" where
  \<comment> \<open>\<open>xs[:hi]\<close>\<close>
  "py_slice_to hi xs = take (py_index (length xs) hi) xs"

definition concatenate_time :: "'a arr3 list \<Rightarrow> error + 'a arr3" where
  \<comment> \<open>\<open>np.concatenate(preds, axis=2)\<close>: ValueError on an empty list and on arrays
      that differ on the other two axes\<close>
  "concatenate_time ps =
     (case ps of
        [] \<Rightarrow> Inl ValueError
      | p # qs \<Rightarrow>
          if \<forall>q \<in> set qs. map length q = map length p
          then Inr (map (\<lambda>c. map (\<lambda>f. concat (map (\<lambda>q. q ! c ! f) ps)) [0..<length (p ! c)])
                      [0..<length p])
          else Inl ValueError)"

section \<open>Floating-point arithmetic\<close>

text \<open>
  A binary floating-point format with \<open>p\<close> significant bits and exponents from
  \<open>emin\<close> to \<open>emax\<close>: float32 has \<open>p = 24\<close>, exponents -126 to 127; float64 has
  \<open>p = 53\<close>, exponents -1022 to 1023. An operation returns the exact result rounded to
  the nearest number of the format, a tie going to the even significand; a result
  that rounds to \<open>2 ^ (emax + 1)\<close> or beyond is an infinity. Below \<open>2 ^ emin\<close> the
  spacing stays that of the lowest binade (subnormal numbers). The sign of zero is not
  modelled.

  \<open>norm_exp\<close> counts the halvings or doublings that bring a positive number into
  \<open>[1, 2)\<close>; \<open>binade\<close> is that exponent, kept within \<open>emin\<close> and \<open>emax + 1\<close>,
  so that a rounded result is \<open>2 ^ (emax + 1)\<close> or beyond exactly when its binade is
  above \<open>emax\<close>.
\<close>

definition round_half_even :: "real \<Rightarrow> int" where
  "round_half_even x =
     (let f = \<lfloor>x\<rfloor>; d = x - of_int f
      in if d < 1 / 2 then f else if 1 / 2 < d then f + 1 else if even f then f else f + 1)"

fun norm_exp :: "nat \<Rightarrow> real \<Rightarrow> int" where
  "norm_exp 0 r = 0"
| "norm_exp (Suc fuel) r =
     (if 2 \<le> r then norm_exp fuel (r / 2) + 1
      else if r < 1 then norm_exp fuel (r * 2) - 1
      else 0)"

definition binade :: "int \<Rightarrow> int \<Rightarrow> real \<Rightarrow> int" where
  "binade emin emax r =
     (if r = 0 then emin
      else max emin (min (emax + 1) (norm_exp (nat (emax - emin + 2)) \<bar>r\<bar>)))"

definition ieee_round :: "int \<Rightarrow> int \<Rightarrow> int \<Rightarrow> real \<Rightarrow> real npval" where
  "ieee_round p emin emax r =
     (let e = binade emin emax r;
          q = 2 powi (e - p + 1);
          v = of_int (round_half_even (r / q)) * q
      in if emax < binade emin emax v then NonFin else Fin v)"

definition float32 :: "real \<Rightarrow> real npval" where
  "float32 = ieee_round 24 (- 126) 127"

definition float64 :: "real \<Rightarrow> real npval" where
  "float64 = ieee_round 53 (- 1022) 1023"

definition f32_div :: "real \<Rightarrow> real \<Rightarrow> real npval" where
  \<comment> \<open>an entry of a float32 array divided by a float32 scalar\<close>
  "f32_div x c = (if c = 0 then NonFin else float32 (x / c))"

definition f32_mul :: "real npval \<Rightarrow> real \<Rightarrow> real npval" where
  \<comment> \<open>an entry of a float32 array multiplied by a float32 scalar\<close>
  "f32_mul v c = (case v of Fin x \<Rightarrow> float32 (x * c) | NonFin \<Rightarrow> NonFin)"

definition f64_mul :: "real npval \<Rightarrow> real npval \<Rightarrow> real npval" where
  \<comment> \<open>the product of two Python floats\<close>
  "f64_mul u v = (case (u, v) of (Fin a, Fin b) \<Rightarrow> float64 (a * b) | _ \<Rightarrow> NonFin)"

section \<open>Inference reconstruction engine (inference.py, reconstruct)\<close>

text \<open>
  The separation model is external: it is a parameter with its declared context margin
  \<open>offset\<close> and its \<open>predict\<close> function on one window (the batch axis of length one,
  the torch conversion and the device are left out). The magnitudes are float32, as
  \<open>main\<close> loads them, so \<open>X / coef\<close> and \<open>pred * coef\<close> round to float32.
\<close>

record model =
  offset :: int
  predict :: "real npval arr3 \<Rightarrow> real npval arr3"

definition tile_plan :: "int \<Rightarrow> int \<Rightarrow> int \<Rightarrow> bool \<Rightarrow> error + (int \<times> int \<times> int \<times> int)" where
  \<comment> \<open>lines 18 to 24 of reconstruct: the pad amounts \<open>l\<close>, \<open>r\<close>, the stride
      \<open>roi_size\<close> and the tile count \<open>n_window\<close>\<close>
  "tile_plan width window_size off tta =
     (case make_padding width window_size off of
        Inl e \<Rightarrow> Inl e
      | Inr (l, r, roi_size) \<Rightarrow>
          (let n_window = \<lceil>real_of_int width / real_of_int roi_size\<rceil>
           in if tta then Inr (l + roi_size div 2, r + roi_size div 2, roi_size, n_window + 1)
              else Inr (l, r, roi_size, n_window)))"

definition reconstruct :: "real arr3 \<Rightarrow> int \<Rightarrow> model \<Rightarrow> bool \<Rightarrow> error + real npval arr3" where
  "reconstruct X window_size m tta =
     (case amax X of
        Inl e \<Rightarrow> Inl e
      | Inr coef \<Rightarrow>
     (case tile_plan (int (ntime X)) window_size (offset m) tta of
        Inl e \<Rightarrow> Inl e
      | Inr (l, r, roi_size, n_window) \<Rightarrow>
     (case pad_time (Fin 0) l r (map (map (map (\<lambda>x. f32_div x coef))) X) of
        Inl e \<Rightarrow> Inl e
      | Inr X_pad \<Rightarrow>
     (let preds = map (\<lambda>i. let start = int i * roi_size
                            in predict m (map (map (py_slice start (start + window_size))) X_pad))
                      [0..<nat n_window]
      in case concatenate_time preds of
           Inl e \<Rightarrow> Inl e
         | Inr pred \<Rightarrow>
             (let pred = (if tta then map (map (py_slice_from (roi_size div 2))) pred else pred)
              in Inr (map (map (map (\<lambda>v. f32_mul v coef)))
                        (map (map (py_slice_to (int (ntime X)))) pred)))))))"

definition identity_model :: "int \<Rightarrow> model" where
  \<comment> \<open>a predictor stub that returns each window unchanged, with declared margin \<open>off\<close>\<close>
  "identity_model off = \<lparr>offset = off, predict = (\<lambda>window. window)\<rparr>"

section \<open>File pair list (lib/dataset.py, make_pair)\<close>

text \<open>
  The file system is a parameter: a directory path is mapped to the names
  \<open>os.listdir\<close> returns for it, in the order it returns them; a path that is not
  mapped makes \<open>os.listdir\<close> raise FileNotFoundError. \<open>splitext\<close> and
  \<open>path_join\<close> follow \<open>os.path.splitext\<close> and \<open>os.path.join\<close> of the
  POSIX path module. Strings are compared as Python compares them, character by
  character with a proper prefix first, so \<open>sorted\<close> is \<open>sort\<close>.
\<close>

definition rfind :: "char \<Rightarrow> string \<Rightarrow> int" where
  \<comment> \<open>\<open>p.rfind(c)\<close>: the last position of \<open>c\<close>, or -1\<close>
  "rfind c p =
     (case filter (\<lambda>i. p ! i = c) (rev [0..<length p]) of [] \<Rightarrow> - 1 | i # _ \<Rightarrow> int i)"

definition splitext :: "string \<Rightarrow> string \<times> string" where
  \<comment> \<open>the extension starts at the last dot of the last path component, unless only
      dots come before it in that component\<close>
  "splitext p =
     (let sepIndex = rfind CHR ''/'' p; dotIndex = rfind CHR ''.'' p
      in if dotIndex > sepIndex
            \<and> (\<exists>i \<in> set [nat (sepIndex + 1)..<nat dotIndex]. p ! i \<noteq> CHR ''.'')
         then (take (nat dotIndex) p, drop (nat dotIndex) p)
         else (p, []))"

definition path_join :: "string \<Rightarrow> string \<Rightarrow> string" where
  "path_join a b =
     (if take 1 b = ''/'' then b
      else if a = [] \<or> last a = CHR ''/'' then a @ b
      else a @ ''/'' @ b)"

definition input_exts :: "string list" where
  "input_exts = [''.wav'', ''.m4a'', ''.mp3'', ''.mp4'', ''.flac'']"

definition audio_paths :: "string \<Rightarrow> string list \<Rightarrow> string list" where
  \<comment> \<open>the sorted list comprehension over one directory listing\<close>
  "audio_paths dir names =
     sort (map (path_join dir) (filter (\<lambda>fname. snd (splitext fname) \<in> set input_exts) names))"

definition make_pair ::
  "(string \<rightharpoonup> string list) \<Rightarrow> string \<Rightarrow> string \<Rightarrow> error + (string \<times> string) list" where
  "make_pair fs mix_dir inst_dir =
     (case fs mix_dir of
        None \<Rightarrow> Inl FileNotFoundError
      | Some mix_names \<Rightarrow>
     (case fs inst_dir of
        None \<Rightarrow> Inl FileNotFoundError
      | Some inst_names \<Rightarrow>
          Inr (zip (audio_paths mix_dir mix_names) (audio_paths inst_dir inst_names))))"

section \<open>Hard-example resampling (lib/dataset.py, get_oracle_data)\<close>

text \<open>
  The claim about this function speaks of copies and views, so arrays live in a store:
  a list of buffers, an array being the index of its buffer. A buffer holds the array's
  entries along its first axis. Indexing with an index array (\<open>X[idx]\<close>) and
  \<open>.copy()\<close> each allocate a new buffer; a view would return the index of an
  existing one.

  The rates are Python floats (float64), given by their exact values; the products and
  the quotient of lines 74 and 75 are rounded to float64 one operation at a time, in the
  order Python evaluates them. \<open>1 / 0.0\<close> raises ZeroDivisionError, and \<open>int\<close> of an
  infinity raises OverflowError; for float64 rates the only infinity is an overflowed
  product, and no nan arises. \<open>int\<close> truncates towards zero. \<open>np.argsort\<close> is modelled by the stable sort of the positions; numpy leaves
  the order of equal losses open. \<open>np.random.choice(a, n, replace=False)\<close> raises
  ValueError for a negative \<open>n\<close> and for \<open>n\<close> above the population, and
  otherwise returns the entries of \<open>a\<close> at the first \<open>n\<close> positions of a random
  permutation; the generator is the parameter \<open>permutation\<close>, which returns a
  permutation of \<open>[0..<p]\<close> for the population size \<open>p\<close>.
\<close>

type_synonym 'a store = "'a list list"

definition alloc :: "'a store \<Rightarrow> 'a list \<Rightarrow> 'a store \<times> nat" where
  "alloc h b = (h @ [b], length h)"

definition py_int :: "real \<Rightarrow> int" where
  "py_int r = (if 0 \<le> r then \<lfloor>r\<rfloor> else \<lceil>r\<rceil>)"

definition oracle_sizes :: "nat \<Rightarrow> real \<Rightarrow> real \<Rightarrow> error + (int \<times> int)" where
  \<comment> \<open>lines 74 and 75: \<open>k\<close> and \<open>n\<close>\<close>
  "oracle_sizes len oracle_rate oracle_drop_rate =
     (let t = f64_mul (float64 (real len)) (Fin oracle_rate)
      in case float64 (1 - oracle_drop_rate) of
           NonFin \<Rightarrow> Inl OverflowError
         | Fin d \<Rightarrow>
             if d = 0 then Inl ZeroDivisionError
             else
               (case f64_mul t (float64 (1 / d)) of
                  NonFin \<Rightarrow> Inl OverflowError
                | Fin kf \<Rightarrow>
                    (case t of
                       NonFin \<Rightarrow> Inl OverflowError
                     | Fin nf \<Rightarrow> Inr (py_int kf, py_int nf))))"

definition argsort :: "real list \<Rightarrow> nat list" where
  "argsort v = sort_key (\<lambda>i. v ! i) [0..<length v]"

definition choice :: "(nat \<Rightarrow> nat list) \<Rightarrow> nat list \<Rightarrow> int \<Rightarrow> error + nat list" where
  "choice permutation a n =
     (if n < 0 \<or> int (length a) < n then Inl ValueError
      else Inr (map (\<lambda>j. a ! j) (take (nat n) (permutation (length a)))))"

definition take_rows :: "'a store \<Rightarrow> nat \<Rightarrow> nat list \<Rightarrow> error + ('a store \<times> nat)" where
  \<comment> \<open>\<open>A[idx]\<close> for an index array: IndexError on an index out of bounds, else a
      new buffer\<close>
  "take_rows h A idx =
     (if \<forall>i \<in> set idx. i < length (h ! A) then Inr (alloc h (map (\<lambda>i. h ! A ! i) idx))
      else Inl IndexError)"

definition copy :: "'a store \<Rightarrow> nat \<Rightarrow> 'a store \<times> nat" where
  "copy h A = alloc h (h ! A)"

definition get_oracle_data ::
  "(nat \<Rightarrow> nat list) \<Rightarrow> 'a store \<Rightarrow> nat \<Rightarrow> nat \<Rightarrow> real list \<Rightarrow> real \<Rightarrow> real
     \<Rightarrow> error + ('a store \<times> nat \<times> nat \<times> nat list)" where
  "get_oracle_data permutation h X y instance_loss oracle_rate oracle_drop_rate =
     (case oracle_sizes (length (h ! X)) oracle_rate oracle_drop_rate of
        Inl e \<Rightarrow> Inl e
      | Inr (k, n) \<Rightarrow>
       (let idx = py_slice_to k (rev (argsort instance_loss))
        in case choice permutation idx n of
             Inl e \<Rightarrow> Inl e
           | Inr idx \<Rightarrow>
          (case take_rows h X idx of
             Inl e \<Rightarrow> Inl e
           | Inr (h, tmp_X) \<Rightarrow>
          (case copy h tmp_X of (h, oracle_X) \<Rightarrow>
          (case take_rows h y idx of
             Inl e \<Rightarrow> Inl e
           | Inr (h, tmp_y) \<Rightarrow>
          (case copy h tmp_y of (h, oracle_y) \<Rightarrow>
             Inr (h, oracle_X, oracle_y, idx)))))))"

section \<open>Training patch builder (lib/dataset.py, make_training_set)\<close>

text \<open>
  The cache provider \<open>spec_utils.cache_or_load\<close> is external: it is the parameter
  \<open>cache_or_load\<close>, which returns the pair of complex spectrograms of a file pair.
  numpy orders complex numbers by real part, then imaginary part; \<open>amax_c\<close> is
  \<open>max()\<close> in that order.

  The random generator is a parameter as well. \<open>raw_int g i j\<close> is the entropy behind
  the \<open>j\<close>-th start offset of file \<open>i\<close>: \<open>np.random.randint(low, high, size)\<close>
  maps it into the half-open range, so every member of the range can be drawn. It
  returns an empty array for size 0 and raises ValueError for an empty range or a
  negative size. \<open>uniform g i j\<close> is the draw \<open>p\<close> for patch \<open>j\<close> of file \<open>i\<close>.
\<close>

record rng =
  raw_int :: "nat \<Rightarrow> nat \<Rightarrow> nat"
  uniform :: "nat \<Rightarrow> nat \<Rightarrow> real"

definition cmax :: "complex \<Rightarrow> complex \<Rightarrow> complex" where
  "cmax a b = (if Re a < Re b \<or> (Re a = Re b \<and> Im a \<le> Im b) then b else a)"

definition amax_c :: "complex arr3 \<Rightarrow> error + complex" where
  "amax_c X = (case entries X of [] \<Rightarrow> Inl ValueError | e # es \<Rightarrow> Inr (foldl cmax e es))"

definition randint :: "(nat \<Rightarrow> nat) \<Rightarrow> int \<Rightarrow> int \<Rightarrow> int \<Rightarrow> error + int list" where
  "randint raw low high count =
     (if count = 0 then Inr []
      else if high \<le> low \<or> count < 0 then Inl ValueError
      else Inr (map (\<lambda>j. low + int (raw j) mod (high - low)) [0..<nat count]))"

definition zeros4 :: "int \<Rightarrow> int \<Rightarrow> int \<Rightarrow> int \<Rightarrow> error + complex npval arr3 list" where
  \<comment> \<open>\<open>np.zeros((a, b, c, d))\<close>: ValueError on a negative dimension\<close>
  "zeros4 a b c d =
     (if a < 0 \<or> b < 0 \<or> c < 0 \<or> d < 0 then Inl ValueError
      else Inr (replicate (nat a) (replicate (nat b) (replicate (nat c) (replicate (nat d) (Fin 0))))))"

definition has_shape4 :: "'a arr3 list \<Rightarrow> nat \<Rightarrow> nat \<Rightarrow> nat \<Rightarrow> nat \<Rightarrow> bool" where
  "has_shape4 D n c f w \<longleftrightarrow> length D = n \<and> (\<forall>A \<in> set D. has_shape A c f w)"

text \<open>
  Assigning to \<open>X_dataset[idx]\<close> broadcasts the right-hand side to the shape of the
  slot: along each axis its length is the slot's, or it is 1 and the single entry is
  repeated; anything else raises ValueError.
\<close>

fun sequence :: "(error + 'a) list \<Rightarrow> error + 'a list" where
  "sequence [] = Inr []"
| "sequence (x # xs) =
     (case x of
        Inl e \<Rightarrow> Inl e
      | Inr v \<Rightarrow> (case sequence xs of Inl e \<Rightarrow> Inl e | Inr vs \<Rightarrow> Inr (v # vs)))"

definition bcast :: "nat \<Rightarrow> 'b list \<Rightarrow> error + 'b list" where
  "bcast n xs =
     (if length xs = n then Inr xs
      else if length xs = 1 then Inr (replicate n (hd xs))
      else Inl ValueError)"

definition broadcast_to :: "nat \<times> nat \<times> nat \<Rightarrow> 'a arr3 \<Rightarrow> error + 'a arr3" where
  "broadcast_to shape A =
     (case shape of (c, f, w) \<Rightarrow>
        (case bcast c A of
           Inl e \<Rightarrow> Inl e
         | Inr chs \<Rightarrow>
             sequence (map (\<lambda>ch. case bcast f ch of
                                   Inl e \<Rightarrow> Inl e
                                 | Inr rows \<Rightarrow> sequence (map (bcast w) rows)) chs)))"

definition np_add :: "'a::field npval \<Rightarrow> 'a npval \<Rightarrow> 'a npval" where
  "np_add u v = (case (u, v) of (Fin a, Fin b) \<Rightarrow> Fin (a + b) | _ \<Rightarrow> NonFin)"

definition mean_axis0 :: "'a::field npval arr3 \<Rightarrow> 'a npval arr3" where
  \<comment> \<open>\<open>A.mean(axis=0, keepdims=True)\<close>: one channel, the sum of the channels divided
      by their number\<close>
  "mean_axis0 A =
     (case A of
        [] \<Rightarrow> []
      | ch # chs \<Rightarrow>
          [map (map (\<lambda>v. case v of Fin s \<Rightarrow> np_div s (of_nat (length A)) | NonFin \<Rightarrow> NonFin))
             (foldl (map2 (map2 np_add)) ch chs)])"

definition augment ::
  "nat \<times> nat \<times> nat \<Rightarrow> real \<Rightarrow> 'a::field npval arr3 \<times> 'a npval arr3
     \<Rightarrow> error + ('a npval arr3 \<times> 'a npval arr3)" where
  \<comment> \<open>lines 117 to 128: the transform of one slot pair chosen by the draw \<open>p\<close>; each
      branch assigns to the slot, of shape \<open>shape\<close>\<close>
  "augment shape p slots =
     (case slots of (X_slot, y_slot) \<Rightarrow>
        if p < 0.5 then
          (case broadcast_to shape (rev X_slot) of
             Inl e \<Rightarrow> Inl e
           | Inr X_slot \<Rightarrow>
               (case broadcast_to shape (rev y_slot) of
                  Inl e \<Rightarrow> Inl e
                | Inr y_slot \<Rightarrow> Inr (X_slot, y_slot)))
        else if p < 0.52 then
          (case broadcast_to shape (mean_axis0 X_slot) of
             Inl e \<Rightarrow> Inl e
           | Inr X_slot \<Rightarrow>
               (case broadcast_to shape (mean_axis0 y_slot) of
                  Inl e \<Rightarrow> Inl e
                | Inr y_slot \<Rightarrow> Inr (X_slot, y_slot)))
        else if p < 0.54 then
          (case broadcast_to shape y_slot of
             Inl e \<Rightarrow> Inl e
           | Inr X_slot \<Rightarrow> Inr (X_slot, y_slot))
        else Inr (X_slot, y_slot))"

fun for_each :: "('b \<Rightarrow> 's \<Rightarrow> error + 's) \<Rightarrow> 'b list \<Rightarrow> 's \<Rightarrow> error + 's" where
  \<comment> \<open>a \<open>for\<close> loop over a list that stops at the first exception\<close>
  "for_each body [] s = Inr s"
| "for_each body (x # xs) s =
     (case body x s of Inl e \<Rightarrow> Inl e | Inr s' \<Rightarrow> for_each body xs s')"

definition patch_step ::
  "rng \<Rightarrow> nat \<times> nat \<times> nat \<Rightarrow> int \<Rightarrow> nat \<Rightarrow> complex npval arr3 \<Rightarrow> complex npval arr3
     \<Rightarrow> int list \<Rightarrow> int list \<Rightarrow> nat
     \<Rightarrow> complex npval arr3 list \<times> complex npval arr3 list
     \<Rightarrow> error + (complex npval arr3 list \<times> complex npval arr3 list)" where
  \<comment> \<open>the body of the loop over \<open>j\<close>, lines 114 to 128\<close>
  "patch_step g shape patches i X_pad y_pad starts ends j datasets =
     (case datasets of (X_dataset, y_dataset) \<Rightarrow>
        (let idx = int i * patches + int j
         in if idx < 0 \<or> int (length X_dataset) \<le> idx \<or> int (length y_dataset) \<le> idx
            then Inl IndexError
            else
              (case broadcast_to shape (map (map (py_slice (starts ! j) (ends ! j))) X_pad) of
                 Inl e \<Rightarrow> Inl e
               | Inr X_slot \<Rightarrow>
              (case broadcast_to shape (map (map (py_slice (starts ! j) (ends ! j))) y_pad) of
                 Inl e \<Rightarrow> Inl e
               | Inr y_slot \<Rightarrow>
              (case augment shape (uniform g i j) (X_slot, y_slot) of
                 Inl e \<Rightarrow> Inl e
               | Inr (X_slot, y_slot) \<Rightarrow>
                   Inr (X_dataset[nat idx := X_slot], y_dataset[nat idx := y_slot]))))))"

definition file_step ::
  "(string \<Rightarrow> string \<Rightarrow> int \<Rightarrow> int \<Rightarrow> int \<Rightarrow> complex arr3 \<times> complex arr3) \<Rightarrow> rng
     \<Rightarrow> int \<Rightarrow> int \<Rightarrow> int \<Rightarrow> int \<Rightarrow> int \<Rightarrow> int
     \<Rightarrow> nat \<times> string \<times> string
     \<Rightarrow> complex npval arr3 list \<times> complex npval arr3 list
     \<Rightarrow> error + (complex npval arr3 list \<times> complex npval arr3 list)" where
  \<comment> \<open>the body of the loop over the file pairs, lines 103 to 128\<close>
  "file_step cache_or_load g cropsize patches sr hop_length n_fft off entry datasets =
     (case entry of (i, X_path, y_path) \<Rightarrow>
     (case cache_or_load X_path y_path sr hop_length n_fft of (X, y) \<Rightarrow>
     (case amax_c X of Inl e \<Rightarrow> Inl e | Inr X_max \<Rightarrow>
     (case amax_c y of Inl e \<Rightarrow> Inl e | Inr y_max \<Rightarrow>
     (let coef = cmax X_max y_max
      in case make_padding (int (ntime X)) cropsize off of
           Inl e \<Rightarrow> Inl e
         | Inr (l, r, roi_size) \<Rightarrow>
        (case pad_time (Fin 0) l r (map (map (map (\<lambda>x. np_div x coef))) X) of
           Inl e \<Rightarrow> Inl e
         | Inr X_pad \<Rightarrow>
        (case pad_time (Fin 0) l r (map (map (map (\<lambda>x. np_div x coef))) y) of
           Inl e \<Rightarrow> Inl e
         | Inr y_pad \<Rightarrow>
        (case randint (raw_int g i) 0 (int (ntime X_pad) - cropsize) patches of
           Inl e \<Rightarrow> Inl e
         | Inr starts \<Rightarrow>
            (let ends = map (\<lambda>s. s + cropsize) starts
             in for_each
                  (patch_step g (2, nat (n_fft div 2 + 1), nat cropsize) patches i
                     X_pad y_pad starts ends)
                  [0..<nat patches] datasets)))))))))"

definition make_training_set ::
  "(string \<Rightarrow> string \<Rightarrow> int \<Rightarrow> int \<Rightarrow> int \<Rightarrow> complex arr3 \<times> complex arr3) \<Rightarrow> rng
     \<Rightarrow> (string \<times> string) list \<Rightarrow> int \<Rightarrow> int \<Rightarrow> int \<Rightarrow> int \<Rightarrow> int \<Rightarrow> int
     \<Rightarrow> error + (complex npval arr3 list \<times> complex npval arr3 list)" where
  "make_training_set cache_or_load g filelist cropsize patches sr hop_length n_fft off =
     (let len_dataset = patches * int (length filelist)
      in case zeros4 len_dataset 2 (n_fft div 2 + 1) cropsize of
           Inl e \<Rightarrow> Inl e
         | Inr X_dataset \<Rightarrow>
        (case zeros4 len_dataset 2 (n_fft div 2 + 1) cropsize of
           Inl e \<Rightarrow> Inl e
         | Inr y_dataset \<Rightarrow>
             for_each (file_step cache_or_load g cropsize patches sr hop_length n_fft off)
               (enumerate 0 filelist) (X_dataset, y_dataset)))"

section \<open>Parameters for the examples\<close>

text \<open>
  Concrete stand-ins for the external parameters, used where a property is evaluated on
  an input: a cache provider that returns one fixed stereo pair with two frequency bins
  and three frames, a generator with constant draws, and a generator of permutations.
\<close>

definition example_cache ::
  "string \<Rightarrow> string \<Rightarrow> int \<Rightarrow> int \<Rightarrow> int \<Rightarrow> complex arr3 \<times> complex arr3" where
  "example_cache X_path y_path sr hop_length n_fft =
     ([[[1, 3, 2], [2, 0, 2]], [[3, 1, 0], [0, 2, 0]]],
      [[[0, 2, 4], [1, 1, 1]], [[4, 2, 0], [1, 1, 3]]])"

definition example_rng :: "real \<Rightarrow> rng" where
  "example_rng p = \<lparr>raw_int = (\<lambda>i j. 1), uniform = (\<lambda>i j. p)\<rparr>"

definition reversed :: "nat \<Rightarrow> nat list" where
  "reversed p = rev [0..<p]"

section \<open>Properties of the padding calculator\<close>

text \<open>
  Claim C2. For width > 0, tile_size > 0, offset >= 0 and tile_size > 2 * offset,
  make_padding returns left = offset, roi_size = tile_size - 2 * offset and
  right = roi_size - (width mod roi_size) + left; hence
  (width + left + right - 2 * offset) mod roi_size = 0, and when width mod roi_size = 0
  the right padding is roi_size + left.
\<close>

theorem make_padding_spec:
  assumes "0 < width" and "0 < tile_size" and "0 \<le> off" and "2 * off < tile_size"
  shows "\<exists>left right roi_size.
           make_padding width tile_size off = Inr (left, right, roi_size)
           \<and> left = off
           \<and> roi_size = tile_size - 2 * off
           \<and> right = roi_size - (width mod roi_size) + left
           \<and> (width + left + right - 2 * off) mod roi_size = 0
           \<and> (width mod roi_size = 0 \<longrightarrow> right = roi_size + left)"
proof -
  let ?roi = "tile_size - 2 * off"
  have nz: "?roi \<noteq> 0" using assms by simp
  have mp: "make_padding width tile_size off
              = Inr (off, ?roi - (width mod ?roi) + off, ?roi)"
    using nz by (simp add: make_padding_def Let_def mult.commute)
  have "(width + off + (?roi - (width mod ?roi) + off) - 2 * off) mod ?roi
          = (width - width mod ?roi + ?roi) mod ?roi"
    by (simp add: algebra_simps)
  also have "\<dots> = (width - width mod ?roi) mod ?roi"
    by simp
  also have "\<dots> = 0"
    by (simp add: minus_mod_eq_mult_div)
  finally show ?thesis using mp by simp
qed

theorem make_padding_spec_witness:
  "make_padding 10 8 2 = Inr (2, 4, 4) \<and> (10 + 2 + 4 - 2 * 2) mod 4 = (0::int)"
  using make_padding_spec [of 10 8 2] by simp

text \<open>
  Claim C4, as amended. make_padding replaces roi_size by tile_size only when
  tile_size - 2 * offset is exactly zero; when the difference is negative, roi_size
  keeps the negative value tile_size - 2 * offset.
\<close>

theorem make_padding_roi_size:
  assumes "0 < tile_size"
  shows "\<exists>left right.
           make_padding width tile_size off
             = Inr (left, right,
                    if tile_size - 2 * off = 0 then tile_size else tile_size - 2 * off)"
  using assms by (simp add: make_padding_def Let_def mult.commute)

theorem make_padding_roi_size_witness:
  "\<exists>left right. make_padding 10 6 3 = Inr (left, right, 6)"
  using make_padding_roi_size [of 6 10 3] by simp

text \<open>
  The claim as first stated (roi_size = tile_size whenever tile_size - 2 * offset <= 0)
  fails for a negative difference: tile_size 4 with offset 3 gives roi_size -2.
\<close>

theorem make_padding_negative_roi_counterexample:
  "make_padding 10 4 3 = Inr (3, 1, - 2)"
  by (simp add: make_padding_def Let_def)

section \<open>Properties of the floating-point model\<close>

text \<open>
  \<open>binade\<close> is the exponent of the binade of a nonzero number: below \<open>2 ^ emin\<close> it is
  \<open>emin\<close>, from \<open>2 ^ emin\<close> up to \<open>2 ^ (emax + 1)\<close> it is the \<open>e\<close> with
  \<open>2 ^ e \<le> \<bar>r\<bar> < 2 ^ (e + 1)\<close>, and from \<open>2 ^ (emax + 1)\<close> on it is \<open>emax + 1\<close>; so
  the overflow test of \<open>ieee_round\<close> is the comparison with \<open>2 ^ (emax + 1)\<close>.
\<close>

lemma norm_exp_lower: "2 ^ k \<le> a \<Longrightarrow> k \<le> fuel \<Longrightarrow> int k \<le> norm_exp fuel a"
proof (induction fuel arbitrary: a k)
  case 0
  then show ?case by simp
next
  case (Suc fuel)
  show ?case
  proof (cases k)
    case 0
    have "1 \<le> a" using Suc.prems(1) 0 by simp
    show ?thesis
    proof (cases "2 \<le> a")
      case True
      then have "2 ^ 0 \<le> a / 2" by simp
      then have "int 0 \<le> norm_exp fuel (a / 2)" by (rule Suc.IH) simp
      then show ?thesis using True 0 by simp
    next
      case False
      then show ?thesis using \<open>1 \<le> a\<close> 0 by simp
    qed
  next
    case (Suc k')
    have "(2::real) \<le> 2 ^ k" unfolding Suc by simp
    then have two: "2 \<le> a" using Suc.prems(1) by linarith
    have "2 ^ k' \<le> a / 2" using Suc.prems(1) Suc by simp
    moreover have "k' \<le> fuel" using Suc.prems(2) Suc by simp
    ultimately have "int k' \<le> norm_exp fuel (a / 2)" by (rule Suc.IH)
    then show ?thesis using two Suc by simp
  qed
qed

lemma norm_exp_upper: "a < 2 ^ Suc k \<Longrightarrow> norm_exp fuel a \<le> int k"
proof (induction fuel arbitrary: a k)
  case 0
  then show ?case by simp
next
  case (Suc fuel)
  show ?case
  proof (cases "2 \<le> a")
    case True
    then obtain k' where k: "k = Suc k'" using Suc.prems by (cases k) auto
    have "a / 2 < 2 ^ Suc k'" using Suc.prems k by simp
    then have "norm_exp fuel (a / 2) \<le> int k'" by (rule Suc.IH)
    then show ?thesis using True k by simp
  next
    case False
    show ?thesis
    proof (cases "a < 1")
      case True
      then have "a * 2 < 2 ^ Suc 0" by simp
      then have "norm_exp fuel (a * 2) \<le> int 0" by (rule Suc.IH)
      then show ?thesis using True False by simp
    next
      case False
      then show ?thesis using \<open>\<not> 2 \<le> a\<close> by simp
    qed
  qed
qed

lemma binade_overflow:
  assumes "emin \<le> 0" and "0 \<le> emax"
  shows "emax < binade emin emax v \<longleftrightarrow> 2 powi (emax + 1) \<le> \<bar>v\<bar>"
proof (cases "v = 0")
  case True
  have "(0::real) < 2 powi (emax + 1)" by simp
  then have "\<not> (2::real) powi (emax + 1) \<le> 0" by linarith
  then show ?thesis using True assms by (simp add: binade_def)
next
  case False
  let ?F = "nat (emax - emin + 2)"
  let ?n = "norm_exp ?F \<bar>v\<bar>"
  have b: "emax < binade emin emax v \<longleftrightarrow> emax < ?n"
    using False assms by (auto simp: binade_def)
  have p: "(2::real) powi (emax + 1) = 2 ^ Suc (nat emax)"
    using assms by (simp add: power_int_def nat_add_distrib)
  show ?thesis
  proof (cases "2 ^ Suc (nat emax) \<le> \<bar>v\<bar>")
    case True
    have "Suc (nat emax) \<le> ?F" using assms by simp
    with True have "int (Suc (nat emax)) \<le> ?n" by (rule norm_exp_lower)
    then show ?thesis using True assms b p by simp
  next
    case False
    then have "\<bar>v\<bar> < 2 ^ Suc (nat emax)" by simp
    then have "?n \<le> int (nat emax)" by (rule norm_exp_upper)
    then show ?thesis using False assms b p by simp
  qed
qed


lemma powi_step: "(2::real) powi (m + 1) = 2 * 2 powi m"
  by (simp add: power_int_add)

lemma powi_less_imp: "(2::real) powi m < 2 powi n \<Longrightarrow> m < n"
proof (rule ccontr)
  assume less: "(2::real) powi m < 2 powi n" and "\<not> m < n"
  then have "n \<le> m" by simp
  then have "(2::real) powi n \<le> 2 powi m" by (intro power_int_increasing) simp_all
  with less show False by linarith
qed

lemma norm_exp_bracket:
  "0 < a \<Longrightarrow> 1 / 2 ^ fuel \<le> a \<Longrightarrow> a < 2 ^ fuel
     \<Longrightarrow> 2 powi (norm_exp fuel a) \<le> a \<and> a < 2 powi (norm_exp fuel a + 1)"
proof (induction fuel arbitrary: a)
  case 0
  then show ?case by simp
next
  case (Suc fuel)
  show ?case
  proof (cases "2 \<le> a")
    case True
    have "0 < a / 2" using True by simp
    moreover have "1 / 2 ^ fuel \<le> a / 2"
    proof -
      have "1 / 2 ^ fuel \<le> (1::real)" by (simp add: divide_le_eq)
      then show ?thesis using True by linarith
    qed
    moreover have "a / 2 < 2 ^ fuel" using Suc.prems(3) by simp
    ultimately have ih: "2 powi (norm_exp fuel (a / 2)) \<le> a / 2
        \<and> a / 2 < 2 powi (norm_exp fuel (a / 2) + 1)"
      by (rule Suc.IH)
    have e: "norm_exp (Suc fuel) a = norm_exp fuel (a / 2) + 1" using True by simp
    have "2 powi (norm_exp fuel (a / 2) + 1) \<le> a"
      using ih powi_step [of "norm_exp fuel (a / 2)"] by linarith
    moreover have "a < 2 powi (norm_exp fuel (a / 2) + 1 + 1)"
      using ih powi_step [of "norm_exp fuel (a / 2) + 1"] by linarith
    ultimately show ?thesis by (simp only: e)
  next
    case False
    show ?thesis
    proof (cases "a < 1")
      case small: True
      show ?thesis
      proof (cases "a * 2 < 1")
        case True
        have f: "0 < fuel" using True Suc.prems(2) by (cases fuel) auto
        have "0 < a * 2" using Suc.prems(1) by simp
        moreover have "1 / 2 ^ fuel \<le> a * 2" using Suc.prems(2) by (simp add: field_simps)
        moreover have "a * 2 < 2 ^ fuel"
        proof -
          have "(1::real) \<le> 2 ^ fuel" by simp
          then show ?thesis using True by linarith
        qed
        ultimately have ih: "2 powi (norm_exp fuel (a * 2)) \<le> a * 2
            \<and> a * 2 < 2 powi (norm_exp fuel (a * 2) + 1)"
          by (rule Suc.IH)
        have "(2::real) powi (norm_exp fuel (a * 2)) = 2 * 2 powi (norm_exp fuel (a * 2) - 1)"
          using powi_step [of "norm_exp fuel (a * 2) - 1"] by simp
        then have "2 powi (norm_exp fuel (a * 2) - 1) \<le> a" using ih by linarith
        moreover have "a < 2 powi (norm_exp fuel (a * 2))"
          using ih by (simp add: powi_step)
        ultimately show ?thesis using small False by simp
      next
        case False
        then have "1 \<le> a * 2" and "a * 2 < 2" using small by simp_all
        then have "norm_exp fuel (a * 2) = 0" by (cases fuel) simp_all
        then show ?thesis using small \<open>\<not> 2 \<le> a\<close> \<open>1 \<le> a * 2\<close>
          by (simp add: power_int_minus field_simps)
      qed
    next
      case False
      then show ?thesis using \<open>\<not> 2 \<le> a\<close> by simp
    qed
  qed
qed

lemma norm_exp_below: "a < 1 / 2 ^ k \<Longrightarrow> k \<le> fuel \<Longrightarrow> norm_exp fuel a \<le> - int k"
proof (induction fuel arbitrary: a k)
  case 0
  then show ?case by simp
next
  case (Suc fuel)
  show ?case
  proof (cases k)
    case 0
    then have a: "a < 1" using Suc.prems(1) by simp
    then have "a * 2 < 2 ^ Suc 0" by simp
    then have "norm_exp fuel (a * 2) \<le> int 0" by (rule norm_exp_upper)
    then show ?thesis using a 0 by simp
  next
    case (Suc k')
    have "1 / 2 ^ k \<le> (1::real)" by (simp add: divide_le_eq)
    then have a: "a < 1" using Suc.prems(1) by linarith
    have "a * 2 < 1 / 2 ^ k'" using Suc.prems(1) Suc by (simp add: field_simps)
    moreover have "k' \<le> fuel" using Suc.prems(2) Suc by simp
    ultimately have "norm_exp fuel (a * 2) \<le> - int k'" by (rule Suc.IH)
    then show ?thesis using a Suc by simp
  qed
qed

lemma binade_spec:
  assumes emin: "emin \<le> 0" and emax: "0 \<le> emax" and r: "r \<noteq> 0"
  shows "(\<bar>r\<bar> < 2 powi emin \<longrightarrow> binade emin emax r = emin)
         \<and> (2 powi emin \<le> \<bar>r\<bar> \<and> \<bar>r\<bar> < 2 powi (emax + 1)
              \<longrightarrow> 2 powi (binade emin emax r) \<le> \<bar>r\<bar> \<and> \<bar>r\<bar> < 2 powi (binade emin emax r + 1))
         \<and> (2 powi (emax + 1) \<le> \<bar>r\<bar> \<longrightarrow> binade emin emax r = emax + 1)"
proof -
  let ?F = "nat (emax - emin + 2)"
  let ?n = "norm_exp ?F \<bar>r\<bar>"
  have b: "binade emin emax r = max emin (min (emax + 1) ?n)"
    using r by (simp add: binade_def)
  have pmin: "(2::real) powi emin = 1 / 2 ^ nat (- emin)"
    using emin by (simp add: power_int_def field_simps)
  have pmax: "(2::real) powi (emax + 1) = 2 ^ Suc (nat emax)"
    using emax by (simp add: power_int_def nat_add_distrib)
  have one: "\<bar>r\<bar> < 2 powi emin \<longrightarrow> binade emin emax r = emin"
  proof
    assume "\<bar>r\<bar> < 2 powi emin"
    then have "\<bar>r\<bar> < 1 / 2 ^ nat (- emin)" by (simp only: pmin)
    moreover have "nat (- emin) \<le> ?F" using emin emax by simp
    ultimately have "?n \<le> - int (nat (- emin))" by (rule norm_exp_below)
    then show "binade emin emax r = emin" using b emin emax by simp
  qed
  have three: "2 powi (emax + 1) \<le> \<bar>r\<bar> \<longrightarrow> binade emin emax r = emax + 1"
  proof
    assume "2 powi (emax + 1) \<le> \<bar>r\<bar>"
    then have "emax < binade emin emax r" using binade_overflow [OF emin emax] by simp
    then show "binade emin emax r = emax + 1" using b emin emax by linarith
  qed
  have two: "2 powi emin \<le> \<bar>r\<bar> \<and> \<bar>r\<bar> < 2 powi (emax + 1)
              \<longrightarrow> 2 powi (binade emin emax r) \<le> \<bar>r\<bar> \<and> \<bar>r\<bar> < 2 powi (binade emin emax r + 1)"
  proof
    assume range: "2 powi emin \<le> \<bar>r\<bar> \<and> \<bar>r\<bar> < 2 powi (emax + 1)"
    have "0 < \<bar>r\<bar>" using r by simp
    moreover have "1 / 2 ^ ?F \<le> \<bar>r\<bar>"
    proof -
      have "(2::real) ^ nat (- emin) \<le> 2 ^ ?F" using emin emax by (intro power_increasing) simp_all
      then have "1 / 2 ^ ?F \<le> (1::real) / 2 ^ nat (- emin)" by (simp add: frac_le)
      then show ?thesis using range pmin by linarith
    qed
    moreover have "\<bar>r\<bar> < 2 ^ ?F"
    proof -
      have "(2::real) ^ Suc (nat emax) \<le> 2 ^ ?F" using emin emax by (intro power_increasing) simp_all
      then show ?thesis using range pmax by linarith
    qed
    ultimately have br: "2 powi ?n \<le> \<bar>r\<bar> \<and> \<bar>r\<bar> < 2 powi (?n + 1)"
      by (rule norm_exp_bracket)
    have "(2::real) powi emin < 2 powi (?n + 1)" using range br by linarith
    then have "emin < ?n + 1" by (rule powi_less_imp)
    then have lo: "emin \<le> ?n" by simp
    have "(2::real) powi ?n < 2 powi (emax + 1)" using range br by linarith
    then have "?n < emax + 1" by (rule powi_less_imp)
    then have hi: "?n \<le> emax" by simp
    have "binade emin emax r = ?n" using b lo hi by simp
    then show "2 powi (binade emin emax r) \<le> \<bar>r\<bar> \<and> \<bar>r\<bar> < 2 powi (binade emin emax r + 1)"
      using br by simp
  qed
  from one two three show ?thesis by blast
qed

section \<open>Slices, windows and concatenation\<close>

lemma py_slice_nonneg:
  "0 \<le> lo \<Longrightarrow> 0 \<le> k \<Longrightarrow> py_slice lo (lo + k) xs = take (nat k) (drop (nat lo) xs)"
  by (cases "nat lo \<le> length xs") (auto simp: py_slice_def py_index_def Let_def min_def nat_add_distrib)

lemma py_slice_to_nonneg: "0 \<le> hi \<Longrightarrow> py_slice_to hi xs = take (nat hi) xs"
  by (simp add: py_slice_to_def py_index_def min_def)

lemma py_slice_from_nonneg: "0 \<le> lo \<Longrightarrow> py_slice_from lo xs = drop (nat lo) xs"
  by (simp add: py_slice_from_def py_index_def min_def)

lemma concat_windows:
  "concat (map (\<lambda>i. take k (drop (i * k) xs)) [0..<n]) = take (n * k) xs"
proof (induction n)
  case 0
  show ?case by simp
next
  case (Suc n)
  have "take (n * k) xs @ take k (drop (n * k) xs) = take (n * k + k) xs"
    by (simp add: take_add)
  with Suc show ?case by (simp add: add.commute)
qed

lemma concatenate_time_Cons:
  assumes "\<forall>q \<in> set qs. map length q = map length p"
  shows "concatenate_time (p # qs)
           = Inr (map (\<lambda>c. map (\<lambda>f. concat (map (\<lambda>q. q ! c ! f) (p # qs))) [0..<length (p ! c)])
                    [0..<length p])"
  using assms by (simp add: concatenate_time_def)

lemma concatenate_time_windows:
  assumes "0 < n"
  shows "concatenate_time (map (\<lambda>i. map (map (g i)) A) [0..<n])
           = Inr (map (map (\<lambda>row. concat (map (\<lambda>i. g i row) [0..<n]))) A)"
proof -
  let ?ps = "map (\<lambda>i. map (map (g i)) A) [0..<n]"
  let ?p = "map (map (g 0)) A"
  let ?qs = "map (\<lambda>i. map (map (g i)) A) [Suc 0..<n]"
  have ps: "?ps = ?p # ?qs"
    using assms by (simp add: upt_conv_Cons)
  have shapes: "\<forall>q \<in> set ?qs. map length q = map length ?p"
    by (auto simp: comp_def)
  have rows: "map (\<lambda>c. map (\<lambda>f. concat (map (\<lambda>q. q ! c ! f) ?ps)) [0..<length (?p ! c)])
                  [0..<length ?p]
                = map (map (\<lambda>row. concat (map (\<lambda>i. g i row) [0..<n]))) A"
    by (rule nth_equalityI) (auto intro!: nth_equalityI simp: comp_def)
  have "concatenate_time (?p # ?qs)
          = Inr (map (\<lambda>c. map (\<lambda>f. concat (map (\<lambda>q. q ! c ! f) (?p # ?qs))) [0..<length (?p ! c)])
                  [0..<length ?p])"
    using shapes by (rule concatenate_time_Cons)
  then have "concatenate_time ?ps
          = Inr (map (\<lambda>c. map (\<lambda>f. concat (map (\<lambda>q. q ! c ! f) ?ps)) [0..<length (?p ! c)])
                  [0..<length ?p])"
    by (simp only: ps)
  with rows show ?thesis by simp
qed

lemma ceil_cover:
  assumes "0 < k"
  shows "w \<le> nat \<lceil>real w / real k\<rceil> * k"
proof -
  define c where "c = nat \<lceil>real w / real k\<rceil>"
  have "0 \<le> real w / real k" by simp
  then have "0 \<le> \<lceil>real w / real k\<rceil>" unfolding zero_le_ceiling by linarith
  then have "real_of_int \<lceil>real w / real k\<rceil> = real c"
    by (simp add: c_def)
  then have "real w / real k \<le> real c"
    using le_of_int_ceiling [of "real w / real k"] by simp
  then have "real w \<le> real c * real k"
    using assms by (simp add: pos_divide_le_eq)
  then have "w \<le> c * k"
    by (metis of_nat_le_iff of_nat_mult)
  then show ?thesis by (simp add: c_def)
qed

lemma ntime_has_shape: "has_shape X c f w \<Longrightarrow> 0 < c \<Longrightarrow> 0 < f \<Longrightarrow> ntime X = w"
  by (cases X; cases "hd X") (auto simp: has_shape_def ntime_def)

lemma map_rows_cong:
  assumes "has_shape A c f w" and "\<And>row. length row = w \<Longrightarrow> g row = h row"
  shows "map (map g) A = map (map h) A"
  using assms by (auto simp: has_shape_def)


lemma window_roundtrip_row:
  assumes "length row = w" and "w + d \<le> m"
  shows "take w (drop d (take m (replicate d z @ row @ replicate r z))) = row"
  using assms by (simp add: drop_take)

lemma has_shape_map: "has_shape X c f w \<Longrightarrow> has_shape (map (map (map g)) X) c f w"
  by (auto simp: has_shape_def)

lemma entries_nonempty: "has_shape X c f w \<Longrightarrow> 0 < c \<Longrightarrow> 0 < f \<Longrightarrow> 0 < w \<Longrightarrow> entries X \<noteq> []"
  by (cases X; cases "hd X"; cases "hd (hd X)") (auto simp: has_shape_def entries_def)

lemma reconstruct_identity_gen:
  assumes sh: "has_shape X c f w" and c: "0 < c" and f: "0 < f" and w: "0 < w"
    and mx: "amax X = Inr coef" and ts: "0 < ts"
  shows "reconstruct X ts (identity_model 0) tta
           = Inr (map (map (map (\<lambda>x. f32_mul (f32_div x coef) coef))) X)"
proof -
  define k where "k = nat ts"
  define n where "n = nat \<lceil>real w / real k\<rceil>"
  define N where "N = map (map (map (\<lambda>x. f32_div x coef))) X"
  define d where "d = (if tta then k div 2 else 0)"
  define m where "m = (if tta then n + 1 else n)"
  define r where "r = (if tta then ts - int w mod ts + ts div 2 else ts - int w mod ts)"
  have k: "0 < k" and tsk: "ts = int k" using ts by (simp_all add: k_def)
  have cover: "w \<le> n * k" unfolding n_def using k by (rule ceil_cover)
  have n: "0 < n" using cover w by (cases n) simp_all
  have nt: "ntime X = w" using sh c f by (rule ntime_has_shape)
  have ceil: "\<lceil>real_of_int (int w) / real_of_int ts\<rceil> = int n"
  proof -
    have "0 \<le> real w / real k" by simp
    then have "0 \<le> \<lceil>real w / real k\<rceil>" unfolding zero_le_ceiling by linarith
    then show ?thesis by (simp add: n_def tsk)
  qed
  have r0: "0 \<le> r"
  proof -
    have "int w mod ts < ts" using ts by simp
    moreover have "0 \<le> ts div 2" using ts by simp
    ultimately show ?thesis by (simp add: r_def)
  qed
  have plan: "tile_plan (int w) ts 0 tta = Inr (int d, r, ts, int m)"
    using ts ceil by (simp add: tile_plan_def make_padding_def Let_def d_def m_def r_def tsk zdiv_int)
  have pad: "pad_time (Fin 0) (int d) r N
               = Inr (map (map (\<lambda>row. replicate d (Fin 0) @ row @ replicate (nat r) (Fin 0))) N)"
    using r0 by (simp add: pad_time_def)
  let ?P = "map (map (\<lambda>row. replicate d (Fin 0) @ row @ replicate (nat r) (Fin 0))) N"
  have win: "(\<lambda>i. map (map (py_slice (int i * ts) (int i * ts + ts))) ?P)
               = (\<lambda>i. map (map (\<lambda>row. take k (drop (i * k) row))) ?P)"
  proof
    fix i
    have ps: "py_slice (int i * ts) (int i * ts + ts) = (\<lambda>row. take k (drop (i * k) row))"
      using ts by (auto simp: py_slice_nonneg k_def nat_mult_distrib)
    show "map (map (py_slice (int i * ts) (int i * ts + ts))) ?P
                 = map (map (\<lambda>row. take k (drop (i * k) row))) ?P"
      unfolding ps by (rule refl)
  qed
  have m: "0 < m" using n by (simp add: m_def)
  have cat: "concatenate_time (map (\<lambda>i. map (map (py_slice (int i * ts) (int i * ts + ts))) ?P) [0..<m])
               = Inr (map (map (take (m * k))) ?P)"
    unfolding win using concatenate_time_windows [OF m, of "\<lambda>i row. take k (drop (i * k) row)" ?P]
    by (simp add: concat_windows)
  have dm: "w + d \<le> m * k"
    using cover k by (auto simp: d_def m_def)
  have shN: "has_shape N c f w" unfolding N_def using sh by (rule has_shape_map)
  have "map (map (\<lambda>row. take w (drop d (take (m * k)
                 (replicate d (Fin 0) @ row @ replicate (nat r) (Fin 0)))))) N
          = map (map (\<lambda>row. row)) N"
  proof (rule map_rows_cong [OF shN])
    fix row :: "real npval list"
    assume "length row = w"
    then show "take w (drop d (take (m * k)
                 (replicate d (Fin 0) @ row @ replicate (nat r) (Fin 0)))) = row"
      using dm by (rule window_roundtrip_row)
  qed
  then have rows: "map (map (\<lambda>row. take w (drop d (take (m * k)
                 (replicate d (Fin 0) @ row @ replicate (nat r) (Fin 0)))))) N = N"
    by (simp only: map_ident)
  have trim: "(if tta then map (map (py_slice_from (ts div 2))) (map (map (take (m * k))) ?P)
               else map (map (take (m * k))) ?P)
              = map (map (\<lambda>row. drop d (take (m * k) row))) ?P"
    using ts by (auto simp: d_def py_slice_from_nonneg k_def nat_div_distrib) 
  have fin: "map (map (py_slice_to (int w))) (map (map (\<lambda>row. drop d (take (m * k) row))) ?P) = N"
    using rows by (simp only: map_map comp_def py_slice_to_nonneg of_nat_0_le_iff nat_int)
  have scale: "map (map (map (\<lambda>v. f32_mul v coef))) N
                 = map (map (map (\<lambda>x. f32_mul (f32_div x coef) coef))) X"
    by (simp add: N_def comp_def)
  show ?thesis
    unfolding reconstruct_def
    by (simp only: mx nt identity_model_def model.simps sum.case plan prod.case N_def [symmetric]
        pad Let_def nat_int cat trim fin scale)
qed

lemma entries_width0: "has_shape X c f 0 \<Longrightarrow> entries X = []"
  by (auto simp: has_shape_def entries_def)

lemma amax_magnitude:
  assumes "\<forall>x \<in> set (entries X). 0 \<le> x" and "\<exists>x \<in> set (entries X). x \<noteq> 0"
  shows "\<exists>coef. amax X = Inr coef \<and> 0 < coef"
proof -
  from assms obtain x where x: "x \<in> set (entries X)" "0 < x" by force
  then have ne: "entries X \<noteq> []" by auto
  have "x \<le> Max (set (entries X))" using x by simp
  then have "0 < Max (set (entries X))" using x by linarith
  with ne show ?thesis by (simp add: amax_def)
qed

lemma amax_all_zero:
  assumes "entries X \<noteq> []" and "\<forall>x \<in> set (entries X). x = 0"
  shows "amax X = Inr 0"
proof -
  have "set (entries X) = {0}" using assms by (cases "entries X") auto
  then show ?thesis using assms by (simp add: amax_def)
qed

section \<open>Properties of the reconstruction engine\<close>

text \<open>
  Claim C1, as amended. For a magnitude spectrogram X (entries >= 0) with at least one
  nonzero entry, every tile_size > 0 and the identity model with declared margin 0,
  reconstruct without the shifted pass returns, for every time width of X (smaller than
  roi_size, an exact multiple of it, or neither), an array of the shape of X whose entry
  at each position is the float32 result of (x / coef) * coef, x being the entry of X at
  that position and coef the maximum of X: the tiling gives every entry back at its own
  place, and the two roundings of the normalisation are all that separates it from X.
\<close>

theorem reconstruct_identity_roundtrip:
  assumes "has_shape X c f w" and "0 < c" and "0 < f"
    and "\<forall>x \<in> set (entries X). 0 \<le> x" and "\<exists>x \<in> set (entries X). x \<noteq> 0"
    and "0 < tile_size"
  shows "\<exists>coef. amax X = Inr coef \<and> 0 < coef
           \<and> reconstruct X tile_size (identity_model 0) False
               = Inr (map (map (map (\<lambda>x. f32_mul (f32_div x coef) coef))) X)"
proof -
  obtain coef where coef: "amax X = Inr coef" "0 < coef"
    using amax_magnitude assms(4,5) by blast
  have "0 < w" using assms(1,5) entries_width0 [of X c f] by (cases w) auto
  then have "reconstruct X tile_size (identity_model 0) False
               = Inr (map (map (map (\<lambda>x. f32_mul (f32_div x coef) coef))) X)"
    using assms coef by (intro reconstruct_identity_gen)
  then show ?thesis using coef by blast
qed

theorem reconstruct_identity_roundtrip_witness:
  "reconstruct [[[1, 2, 3], [0, 4, 0]]] 2 (identity_model 0) False
     = Inr [[[Fin 1, Fin 2, Fin 3], [Fin 0, Fin 4, Fin 0]]]"
proof -
  have mx: "amax [[[1, 2, 3], [0, 4, 0]]] = Inr 4"
    by (simp add: amax_def entries_def)
  have ev: "map (map (map (\<lambda>x. f32_mul (f32_div x 4) 4))) [[[1, 2, 3], [0, 4, 0]]]
              = [[[Fin 1, Fin 2, Fin 3], [Fin 0, Fin 4, Fin 0]]]"
    by code_simp
  obtain coef where "amax [[[1, 2, 3], [0, 4, 0]]] = Inr coef"
      and r: "reconstruct [[[1, 2, 3], [0, 4, 0]]] 2 (identity_model 0) False
                = Inr (map (map (map (\<lambda>x. f32_mul (f32_div x coef) coef))) [[[1, 2, 3], [0, 4, 0]]])"
    using reconstruct_identity_roundtrip [of "[[[1, 2, 3], [0, 4, 0]]]" 1 2 3 2]
    by (auto simp: has_shape_def entries_def)
  then have "coef = 4" using mx by simp
  with r ev show ?thesis by (simp only:)
qed

text \<open>
  With a declared margin of 1 the identity model does not give X back: the window
  starts in the left padding, and the engine itself trims nothing. With margin 0 the
  entry 7 under the maximum 13 comes back as 14680065 / 2097152, the float32 number
  7.000000476837158.
\<close>

theorem reconstruct_identity_margin_counterexample:
  "reconstruct [[[1, 2]]] 4 (identity_model 1) False = Inr [[[Fin 0, Fin 1]]]
   \<and> reconstruct [[[7, 13]]] 4 (identity_model 0) False
       = Inr [[[Fin (14680065 / 2097152), Fin 13]]]"
  by code_simp

text \<open>
  Claim C3, as amended. Under the same conditions (declared margin 0) reconstruct with
  the shifted pass returns the same array as the unshifted pass: at each position the
  float32 result of (x / coef) * coef; and for every width, tile size and margin the
  shifted pass adds roi_size div 2 to both pad amounts and one tile to the tile count
  of the unshifted pass.
\<close>

theorem reconstruct_shifted_identity_roundtrip:
  assumes "has_shape X c f w" and "0 < c" and "0 < f"
    and "\<forall>x \<in> set (entries X). 0 \<le> x" and "\<exists>x \<in> set (entries X). x \<noteq> 0"
    and "0 < tile_size"
  shows "(\<exists>coef. amax X = Inr coef \<and> 0 < coef
            \<and> reconstruct X tile_size (identity_model 0) True
                = Inr (map (map (map (\<lambda>x. f32_mul (f32_div x coef) coef))) X))
         \<and> reconstruct X tile_size (identity_model 0) True
             = reconstruct X tile_size (identity_model 0) False
         \<and> (case tile_plan width tile_size off False of
               Inl e \<Rightarrow> tile_plan width tile_size off True = Inl e
             | Inr (l, r, roi_size, n_window) \<Rightarrow>
                 tile_plan width tile_size off True
                   = Inr (l + roi_size div 2, r + roi_size div 2, roi_size, n_window + 1))"
proof -
  obtain coef where coef: "amax X = Inr coef" "0 < coef"
    using amax_magnitude assms(4,5) by blast
  have w: "0 < w" using assms(1,5) entries_width0 [of X c f] by (cases w) auto
  have shifted: "reconstruct X tile_size (identity_model 0) True
               = Inr (map (map (map (\<lambda>x. f32_mul (f32_div x coef) coef))) X)"
    using w assms coef by (intro reconstruct_identity_gen)
  have plain: "reconstruct X tile_size (identity_model 0) False
               = Inr (map (map (map (\<lambda>x. f32_mul (f32_div x coef) coef))) X)"
    using w assms coef by (intro reconstruct_identity_gen)
  have plan: "(case tile_plan width tile_size off False of
               Inl e \<Rightarrow> tile_plan width tile_size off True = Inl e
             | Inr (l, r, roi_size, n_window) \<Rightarrow>
                 tile_plan width tile_size off True
                   = Inr (l + roi_size div 2, r + roi_size div 2, roi_size, n_window + 1))"
    by (simp add: tile_plan_def Let_def split: sum.splits)
  from coef shifted have "\<exists>coef. amax X = Inr coef \<and> 0 < coef
            \<and> reconstruct X tile_size (identity_model 0) True
                = Inr (map (map (map (\<lambda>x. f32_mul (f32_div x coef) coef))) X)"
    by blast
  moreover have "reconstruct X tile_size (identity_model 0) True
             = reconstruct X tile_size (identity_model 0) False"
    by (simp only: shifted plain)
  ultimately show ?thesis using plan by (simp only: simp_thms)
qed

theorem reconstruct_shifted_identity_roundtrip_witness:
  "reconstruct [[[1, 2, 3], [0, 4, 0]]] 2 (identity_model 0) True
     = Inr [[[Fin 1, Fin 2, Fin 3], [Fin 0, Fin 4, Fin 0]]]
   \<and> tile_plan 10 8 2 False = Inr (2, 4, 4, 3) \<and> tile_plan 10 8 2 True = Inr (4, 6, 4, 4)"
proof -
  have mx: "amax [[[1, 2, 3], [0, 4, 0]]] = Inr 4"
    by (simp add: amax_def entries_def)
  have ev: "map (map (map (\<lambda>x. f32_mul (f32_div x 4) 4))) [[[1, 2, 3], [0, 4, 0]]]
              = [[[Fin 1, Fin 2, Fin 3], [Fin 0, Fin 4, Fin 0]]]"
    by code_simp
  have plans: "tile_plan 10 8 2 False = Inr (2, 4, 4, 3) \<and> tile_plan 10 8 2 True = Inr (4, 6, 4, 4)"
    by (simp add: tile_plan_def make_padding_def)
  obtain coef where "amax [[[1, 2, 3], [0, 4, 0]]] = Inr coef"
      and r: "reconstruct [[[1, 2, 3], [0, 4, 0]]] 2 (identity_model 0) True
                = Inr (map (map (map (\<lambda>x. f32_mul (f32_div x coef) coef))) [[[1, 2, 3], [0, 4, 0]]])"
    using reconstruct_shifted_identity_roundtrip [of "[[[1, 2, 3], [0, 4, 0]]]" 1 2 3 2 10 2]
    by (auto simp: has_shape_def entries_def)
  then have "coef = 4" using mx by simp
  with r ev plans show ?thesis by (simp only: simp_thms)
qed

text \<open>
  The shifted pass with a declared margin of 1 does not give X back either, and with
  margin 0 it rounds as the unshifted pass does.
\<close>

theorem reconstruct_shifted_margin_counterexample:
  "reconstruct [[[1, 2]]] 4 (identity_model 1) True = Inr [[[Fin 0, Fin 1]]]
   \<and> reconstruct [[[7, 13]]] 4 (identity_model 0) True
       = Inr [[[Fin (14680065 / 2097152), Fin 13]]]"
  by code_simp

text \<open>
  Claim C10. For an all-zero spectrogram the normalisation coefficient is 0, every
  entry is divided by it, and (with the identity model) reconstruct returns an array of
  non-finite entries instead of the input: the division is not guarded.
\<close>

theorem reconstruct_all_zero:
  assumes "has_shape X c f w" and "0 < c" and "0 < f" and "0 < w"
    and "\<forall>x \<in> set (entries X). x = 0" and "0 < tile_size"
  shows "amax X = Inr 0
         \<and> reconstruct X tile_size (identity_model 0) tta = Inr (map (map (map (\<lambda>x. NonFin))) X)"
proof -
  have "entries X \<noteq> []" using assms(1-4) by (rule entries_nonempty)
  then have mx: "amax X = Inr 0" using assms(5) by (rule amax_all_zero)
  have "reconstruct X tile_size (identity_model 0) tta
               = Inr (map (map (map (\<lambda>x. f32_mul (f32_div x 0) 0))) X)"
    using assms(1-4) mx assms(6) by (rule reconstruct_identity_gen)
  then show ?thesis using mx by (simp add: f32_mul_def f32_div_def)
qed

theorem reconstruct_all_zero_witness:
  "amax [[[0, 0, 0]]] = Inr 0
   \<and> reconstruct [[[0, 0, 0]]] 2 (identity_model 0) False = Inr [[[NonFin, NonFin, NonFin]]]"
  using reconstruct_all_zero [of "[[[0, 0, 0]]]" 1 1 3 2 False]
  by (simp add: has_shape_def entries_def)

section \<open>Properties of the file pair list\<close>

text \<open>
  Claim C5, as amended. When both directories can be listed, make_pair does not fail,
  whatever the lengths of the two filtered, sorted listings: it returns their
  position-wise pairs, as many as the shorter listing has.
\<close>

theorem make_pair_truncates:
  assumes "fs mix_dir = Some mix_names" and "fs inst_dir = Some inst_names"
  shows "\<exists>pairs. make_pair fs mix_dir inst_dir = Inr pairs
           \<and> pairs = zip (audio_paths mix_dir mix_names) (audio_paths inst_dir inst_names)
           \<and> length pairs = min (length (audio_paths mix_dir mix_names))
                                (length (audio_paths inst_dir inst_names))"
  using assms by (simp add: make_pair_def)

theorem make_pair_truncates_witness:
  "\<exists>pairs. make_pair [''mix'' \<mapsto> [''2.mp3'', ''1.mp3''], ''inst'' \<mapsto> [''1.mp3'', ''notes.txt'', ''2.mp3'', ''3.mp3'']]
              ''mix'' ''inst'' = Inr pairs
     \<and> pairs = zip (audio_paths ''mix'' [''2.mp3'', ''1.mp3''])
                   (audio_paths ''inst'' [''1.mp3'', ''notes.txt'', ''2.mp3'', ''3.mp3''])
     \<and> length pairs = min (length (audio_paths ''mix'' [''2.mp3'', ''1.mp3'']))
                          (length (audio_paths ''inst'' [''1.mp3'', ''notes.txt'', ''2.mp3'', ''3.mp3'']))"
  using make_pair_truncates [of "[''mix'' \<mapsto> [''2.mp3'', ''1.mp3''], ''inst'' \<mapsto> [''1.mp3'', ''notes.txt'', ''2.mp3'', ''3.mp3'']]"
      "''mix''" "[''2.mp3'', ''1.mp3'']" "''inst''" "[''1.mp3'', ''notes.txt'', ''2.mp3'', ''3.mp3'']"]
  by simp

text \<open>
  Two audio files against one: no failure, the second mixture file is dropped.
\<close>

theorem make_pair_unequal_counterexample:
  "length (audio_paths ''mix'' [''b.wav'', ''a.wav'', ''c.txt'']) = 2
   \<and> length (audio_paths ''inst'' [''a.wav'']) = 1
   \<and> make_pair [''mix'' \<mapsto> [''b.wav'', ''a.wav'', ''c.txt''], ''inst'' \<mapsto> [''a.wav'']] ''mix'' ''inst''
       = Inr [(''mix/a.wav'', ''inst/a.wav'')]"
  by code_simp

section \<open>Properties of the hard-example resampling\<close>

lemma argsort_distinct: "distinct (argsort v)"
  by (simp add: argsort_def)

lemma argsort_set: "set (argsort v) = {0..<length v}"
  by (simp add: argsort_def)

lemma argsort_sorted: "sorted (map (\<lambda>i. v ! i) (argsort v))"
  by (simp add: argsort_def)

lemma sorted_map_append_le:
  assumes "sorted (map f (as @ bs))" and "a \<in> set as" and "b \<in> set bs"
  shows "f a \<le> f b"
  using assms by (auto simp: sorted_append)

lemma top_pool_dominates:
  assumes i: "i \<in> set (take m (rev (argsort v)))"
    and j: "j < length v" and nj: "j \<notin> set (take m (rev (argsort v)))"
  shows "v ! j \<le> v ! i"
proof -
  let ?R = "rev (argsort v)"
  have "j \<in> set ?R" using j by (simp add: argsort_set)
  then have "j \<in> set (take m ?R) \<union> set (drop m ?R)"
    by (metis append_take_drop_id set_append)
  then have jd: "j \<in> set (rev (drop m ?R))" using nj by simp
  have ir: "i \<in> set (rev (take m ?R))" using i by simp
  have "argsort v = rev (drop m ?R) @ rev (take m ?R)"
    by (metis append_take_drop_id rev_append rev_rev_ident)
  then have "sorted (map (\<lambda>i. v ! i) (rev (drop m ?R) @ rev (take m ?R)))"
    using argsort_sorted [of v] by simp
  then show ?thesis using jd ir by (rule sorted_map_append_le)
qed

lemma permutation_length:
  assumes "distinct ps" and "set ps = {0..<p}"
  shows "length ps = p"
  using assms by (metis card_atLeastLessThan diff_zero distinct_card)

lemma choice_ok:
  assumes perm: "distinct (permutation (length a)) \<and> set (permutation (length a)) = {0..<length a}"
    and n: "0 \<le> n" "n \<le> int (length a)" and a: "distinct a"
  shows "\<exists>idx. choice permutation a n = Inr idx \<and> length idx = nat n \<and> distinct idx
           \<and> set idx \<subseteq> set a"
proof -
  let ?js = "take (nat n) (permutation (length a))"
  have len: "length (permutation (length a)) = length a"
    using perm by (simp add: permutation_length)
  have js: "distinct ?js" "set ?js \<subseteq> {0..<length a}"
    using perm by (auto dest: in_set_takeD)
  have "inj_on (\<lambda>j. a ! j) (set ?js)"
  proof (rule inj_onI)
    fix x y
    assume "x \<in> set ?js" and "y \<in> set ?js" and eq: "a ! x = a ! y"
    then have "x < length a" and "y < length a" using js(2) by auto
    then show "x = y" using a eq by (simp add: nth_eq_iff_index_eq)
  qed
  then have "distinct (map (\<lambda>j. a ! j) ?js)"
    using js by (simp add: distinct_map)
  moreover have "length (map (\<lambda>j. a ! j) ?js) = nat n"
    using n len by simp
  moreover have "set (map (\<lambda>j. a ! j) ?js) \<subseteq> set a"
    using js by auto
  moreover have "choice permutation a n = Inr (map (\<lambda>j. a ! j) ?js)"
    using n by (simp add: choice_def)
  ultimately show ?thesis by blast
qed


lemma take_rows_ok:
  assumes "\<forall>i \<in> set idx. i < length (h ! A)"
  shows "take_rows h A idx = Inr (h @ [map (\<lambda>i. h ! A ! i) idx], length h)"
  using assms by (simp add: take_rows_def alloc_def)

text \<open>
  Claim C8, as amended. Let k and n be the integers lines 74 and 75 compute in float64
  arithmetic (so oracle_drop_rate is not 1 and nothing overflows). When 0 <= n <= k,
  n <= len(X) and instance_loss has one entry per entry of X and of y, get_oracle_data
  returns exactly n indices without duplicates, all among the first k positions by descending loss (no
  position outside that pool has a larger loss than a chosen one), and the two returned
  arrays are new buffers, distinct from those of X and y, which hold the chosen entries
  of X and y; the buffers of the store it was called with are unchanged.
\<close>

theorem get_oracle_data_sample:
  fixes h :: "'a store"
  assumes perm: "\<forall>p. distinct (permutation p) \<and> set (permutation p) = {0..<p}"
    and X: "X < length h" and y: "y < length h"
    and lenX: "length (h ! X) = length instance_loss"
    and leny: "length (h ! y) = length instance_loss"
    and sizes: "oracle_sizes (length (h ! X)) oracle_rate oracle_drop_rate = Inr (k, n)"
    and n0: "0 \<le> n" and nk: "n \<le> k" and nlen: "n \<le> int (length (h ! X))"
  shows "\<exists>h' oracle_X oracle_y idx.
           get_oracle_data permutation h X y instance_loss oracle_rate oracle_drop_rate
             = Inr (h', oracle_X, oracle_y, idx)
           \<and> length idx = nat n \<and> distinct idx
           \<and> set idx \<subseteq> set (take (nat k) (rev (argsort instance_loss)))
           \<and> (\<forall>i \<in> set idx. \<forall>j < length instance_loss.
                 j \<notin> set (take (nat k) (rev (argsort instance_loss)))
                 \<longrightarrow> instance_loss ! j \<le> instance_loss ! i)
           \<and> oracle_X \<notin> {X, y} \<and> oracle_y \<notin> {X, y} \<and> oracle_X \<noteq> oracle_y
           \<and> length h \<le> oracle_X \<and> length h \<le> oracle_y
           \<and> oracle_X < length h' \<and> oracle_y < length h'
           \<and> take (length h) h' = h
           \<and> h' ! oracle_X = map (\<lambda>i. h ! X ! i) idx
           \<and> h' ! oracle_y = map (\<lambda>i. h ! y ! i) idx"
proof -
  let ?pool = "take (nat k) (rev (argsort instance_loss))"
  have k0: "0 \<le> k" using n0 nk by simp
  have pool: "py_slice_to k (rev (argsort instance_loss)) = ?pool"
    using k0 by (simp add: py_slice_to_def py_index_def min_def)
  have dpool: "distinct ?pool" by (simp add: argsort_distinct)
  have "length (rev (argsort instance_loss)) = length instance_loss"
    by (simp add: argsort_def)
  then have lpool: "n \<le> int (length ?pool)"
    using nk nlen lenX n0 by (simp add: min_def)
  obtain idx where idx: "choice permutation ?pool n = Inr idx" "length idx = nat n"
      "distinct idx" "set idx \<subseteq> set ?pool"
    using choice_ok [of permutation ?pool n, OF perm [rule_format] n0 lpool dpool] by blast
  have inb: "\<forall>i \<in> set idx. i < length instance_loss"
  proof
    fix i assume "i \<in> set idx"
    then have "i \<in> set (take (nat k) (rev (argsort instance_loss)))"
      using idx(4) by blast
    then have "i \<in> set (rev (argsort instance_loss))"
      by (rule in_set_takeD)
    then show "i < length instance_loss" by (simp add: argsort_set)
  qed
  define rX where "rX = map (\<lambda>i. h ! X ! i) idx"
  define ry where "ry = map (\<lambda>i. h ! y ! i) idx"
  have t1: "take_rows h X idx = Inr (h @ [rX], length h)"
    unfolding rX_def using inb lenX by (intro take_rows_ok) simp
  have c1: "copy (h @ [rX]) (length h) = (h @ [rX, rX], length h + 1)"
    by (simp add: copy_def alloc_def)
  have t2: "take_rows (h @ [rX, rX]) y idx = Inr (h @ [rX, rX, ry], length h + 2)"
    using inb leny y by (simp add: take_rows_def alloc_def nth_append ry_def)
  have c2: "copy (h @ [rX, rX, ry]) (Suc (Suc (length h))) = (h @ [rX, rX, ry, ry], length h + 3)"
    by (simp add: copy_def alloc_def nth_append)
  have res: "get_oracle_data permutation h X y instance_loss oracle_rate oracle_drop_rate
               = Inr (h @ [rX, rX, ry, ry], length h + 1, length h + 3, idx)"
    unfolding get_oracle_data_def
    by (simp add: Let_def sizes pool idx(1) t1 c1 t2 c2)
  have dom: "\<forall>i \<in> set idx. \<forall>j < length instance_loss.
                 j \<notin> set ?pool \<longrightarrow> instance_loss ! j \<le> instance_loss ! i"
    using idx(4) top_pool_dominates by blast
  have "length idx = nat n \<and> distinct idx \<and> set idx \<subseteq> set ?pool
        \<and> length h + 1 \<notin> {X, y} \<and> length h + 3 \<notin> {X, y} \<and> length h + 1 \<noteq> length h + 3
        \<and> length h \<le> length h + 1 \<and> length h \<le> length h + 3
        \<and> length h + 1 < length (h @ [rX, rX, ry, ry]) \<and> length h + 3 < length (h @ [rX, rX, ry, ry])
        \<and> take (length h) (h @ [rX, rX, ry, ry]) = h
        \<and> (h @ [rX, rX, ry, ry]) ! (length h + 1) = rX
        \<and> (h @ [rX, rX, ry, ry]) ! (length h + 3) = ry"
    using idx X y by (simp add: nth_append)
  with res dom show ?thesis unfolding rX_def ry_def by blast
qed

theorem get_oracle_data_sample_witness:
  "\<exists>h' oracle_X oracle_y idx.
     get_oracle_data reversed [[10::int, 11, 12, 13], [20, 21, 22, 23]] 0 1
         [1/2, 1/10, 9/10, 3/10] (1/2) (1/2)
       = Inr (h', oracle_X, oracle_y, idx)
     \<and> length idx = 2 \<and> distinct idx \<and> oracle_X \<notin> {0, 1} \<and> oracle_y \<notin> {0, 1}"
proof -
  have sizes: "oracle_sizes (length ([[10::int, 11, 12, 13], [20, 21, 22, 23]] ! 0)) (1/2) (1/2)
                 = Inr (4, 2)"
    by code_simp
  show ?thesis
    using get_oracle_data_sample [where permutation = reversed and X = 0 and y = 1
        and h = "[[10::int, 11, 12, 13], [20, 21, 22, 23]]"
        and instance_loss = "[1/2, 1/10, 9/10, 3/10]"
        and oracle_rate = "1/2" and oracle_drop_rate = "1/2" and k = 4 and n = 2, OF _ _ _ _ _ sizes]
    by (simp add: reversed_def) blast
qed

text \<open>
  k >= n alone is not enough: with oracle_rate 2 on two entries, k = n = 4 exceeds the
  population and the draw without replacement raises ValueError.
\<close>

theorem get_oracle_data_oversample_counterexample:
  "oracle_sizes (length ([[10::int, 11], [20, 21]] ! 0)) 2 0 = Inr (4, 4)
   \<and> get_oracle_data reversed [[10::int, 11], [20, 21]] 0 1 [1/2, 1/10] 2 0
       = Inl ValueError"
  by code_simp

text \<open>
  The sizes are those of the float64 computation, not of the exact products: for three
  entries and the floats nearest to 0.35 and 0.65 the exact product is just above 3,
  the rounded one just below, and k is 2.
\<close>

lemma oracle_sizes_rounding:
  "float64 (35 / 100) = Fin (3152519739159347 / 9007199254740992)
   \<and> float64 (65 / 100) = Fin (5854679515581645 / 9007199254740992)
   \<and> oracle_sizes 3 (3152519739159347 / 9007199254740992) (5854679515581645 / 9007199254740992)
       = Inr (2, 1)"
  by code_simp

section \<open>Properties of the training patch builder\<close>

lemma sequence_map_Inr:
  "(\<forall>x \<in> set xs. g x = Inr (h x)) \<Longrightarrow> sequence (map g xs) = Inr (map h xs)"
  by (induction xs) simp_all

lemma bcast_same: "length xs = n \<Longrightarrow> bcast n xs = Inr xs"
  by (simp add: bcast_def)

lemma broadcast_rows_same:
  assumes "\<forall>row \<in> set ch. length row = w"
  shows "sequence (map (bcast w) ch) = Inr ch"
  using sequence_map_Inr [of ch "bcast w" "\<lambda>row. row"] assms by (simp add: bcast_same)

lemma broadcast_channel_same:
  assumes "length ch = f" and "\<forall>row \<in> set ch. length row = w"
  shows "(case bcast f ch of Inl e \<Rightarrow> Inl e | Inr rows \<Rightarrow> sequence (map (bcast w) rows)) = Inr ch"
  using assms by (simp add: bcast_same broadcast_rows_same)

lemma broadcast_to_same:
  assumes "has_shape A c f w"
  shows "broadcast_to (c, f, w) A = Inr A"
proof -
  have "bcast c A = Inr A" using assms by (simp add: has_shape_def bcast_same)
  moreover have "sequence (map (\<lambda>ch. case bcast f ch of Inl e \<Rightarrow> Inl e
                                        | Inr rows \<Rightarrow> sequence (map (bcast w) rows)) A)
                   = Inr (map (\<lambda>ch. ch) A)"
    using assms by (intro sequence_map_Inr) (simp add: has_shape_def broadcast_channel_same)
  ultimately show ?thesis by (simp add: broadcast_to_def)
qed

lemma broadcast_to_one_channel:
  assumes "length m = f" and "\<forall>row \<in> set m. length row = w"
  shows "broadcast_to (c, f, w) [m] = Inr (replicate c m)"
proof -
  have b: "bcast c [m] = Inr (replicate c m)"
    by (cases "c = 1") (simp_all add: bcast_def)
  have "sequence (map (\<lambda>ch. case bcast f ch of Inl e \<Rightarrow> Inl e
                                | Inr rows \<Rightarrow> sequence (map (bcast w) rows)) (replicate c m))
          = Inr (map (\<lambda>ch. ch) (replicate c m))"
    using assms by (intro sequence_map_Inr) (simp add: broadcast_channel_same)
  with b show ?thesis by (simp add: broadcast_to_def)
qed

lemma has_shape_two:
  assumes "has_shape A 2 f w"
  obtains a b where "A = [a, b]" and "length a = f" and "length b = f"
    and "\<forall>row \<in> set a. length row = w" and "\<forall>row \<in> set b. length row = w"
proof -
  from assms have "length A = 2" by (simp add: has_shape_def)
  then obtain a b where A: "A = [a, b]"
    by (cases A; cases "tl A") auto
  with assms that show ?thesis by (auto simp: has_shape_def)
qed

lemma mean_axis0_two:
  fixes a b :: "complex npval list list"
  assumes "length a = f" and "length b = f"
    and "\<forall>row \<in> set a. length row = w" and "\<forall>row \<in> set b. length row = w"
  shows "\<exists>m. mean_axis0 [a, b] = [m] \<and> length m = f \<and> (\<forall>row \<in> set m. length row = w)
           \<and> (\<forall>k < f. \<forall>t < w. m ! k ! t
                 = (case np_add (a ! k ! t) (b ! k ! t) of Fin s \<Rightarrow> Fin (s / 2) | NonFin \<Rightarrow> NonFin))"
proof -
  let ?h = "\<lambda>v. case v of Fin s \<Rightarrow> np_div s (of_nat (length [a, b])) | NonFin \<Rightarrow> (NonFin :: complex npval)"
  let ?m = "map (map ?h) (map2 (map2 np_add) a b)"
  have m: "mean_axis0 [a, b] = [?m]" by (simp add: mean_axis0_def)
  have len: "length ?m = f" using assms by simp
  have rows: "\<forall>row \<in> set ?m. length row = w"
    using assms by (auto simp: set_zip)
  have pt: "\<forall>k < f. \<forall>t < w. ?m ! k ! t
                 = (case np_add (a ! k ! t) (b ! k ! t) of Fin s \<Rightarrow> Fin (s / 2) | NonFin \<Rightarrow> NonFin)"
    using assms by (auto simp: np_div_def split: npval.splits)
  from m len rows pt show ?thesis by blast
qed

lemma for_each_invariant:
  assumes "\<And>x s. x \<in> set xs \<Longrightarrow> I s \<Longrightarrow> \<exists>s'. body x s = Inr s' \<and> I s'" and "I s"
  shows "\<exists>s'. for_each body xs s = Inr s' \<and> I s'"
  using assms
proof (induction xs arbitrary: s)
  case Nil
  then show ?case by simp
next
  case (Cons x xs)
  from Cons.prems obtain s1 where s1: "body x s = Inr s1" "I s1"
    by (meson list.set_intros(1))
  have "\<exists>s'. for_each body xs s1 = Inr s' \<and> I s'"
    using Cons.prems(1) s1(2) by (intro Cons.IH) auto
  with s1 show ?case by simp
qed

lemma for_each_fails:
  assumes "x \<in> set xs" and "\<And>s. \<exists>e. body x s = Inl e"
  shows "\<exists>e. for_each body xs s = Inl e"
  using assms
proof (induction xs arbitrary: s)
  case Nil
  then show ?case by simp
next
  case (Cons a xs)
  show ?case
  proof (cases "body a s")
    case (Inl e)
    then show ?thesis by simp
  next
    case (Inr s1)
    show ?thesis
    proof (cases "x = a")
      case True
      with Cons.prems(2) [of s] Inr show ?thesis by simp
    next
      case False
      with Cons.prems have "x \<in> set xs" by simp
      then have "\<exists>e. for_each body xs s1 = Inl e"
        using Cons.prems(2) by (rule Cons.IH)
      with Inr show ?thesis by simp
    qed
  qed
qed

lemma has_shape_rev: "has_shape A c f w \<Longrightarrow> has_shape (rev A) c f w"
  by (simp add: has_shape_def)

lemma has_shape_pair: 
  "length m = f \<Longrightarrow> \<forall>row \<in> set m. length row = w \<Longrightarrow> has_shape [m, m] 2 f w"
  by (simp add: has_shape_def)

lemma augment_mean_branch:
  fixes X_slot y_slot :: "complex npval arr3"
  assumes "has_shape X_slot 2 f w" and "has_shape y_slot 2 f w" and "0.5 \<le> p" and "p < 0.52"
  shows "\<exists>mX my.
           mean_axis0 X_slot = [mX] \<and> mean_axis0 y_slot = [my]
           \<and> augment (2, f, w) p (X_slot, y_slot) = Inr ([mX, mX], [my, my])
           \<and> length mX = f \<and> (\<forall>row \<in> set mX. length row = w)
           \<and> length my = f \<and> (\<forall>row \<in> set my. length row = w)
           \<and> (\<forall>k < f. \<forall>t < w.
                 mX ! k ! t = (case np_add (X_slot ! 0 ! k ! t) (X_slot ! 1 ! k ! t) of
                                 Fin s \<Rightarrow> Fin (s / 2) | NonFin \<Rightarrow> NonFin)
                 \<and> my ! k ! t = (case np_add (y_slot ! 0 ! k ! t) (y_slot ! 1 ! k ! t) of
                                   Fin s \<Rightarrow> Fin (s / 2) | NonFin \<Rightarrow> NonFin))"
proof -
  obtain a b where X: "X_slot = [a, b]" and ab: "length a = f" "length b = f"
      "\<forall>row \<in> set a. length row = w" "\<forall>row \<in> set b. length row = w"
    using assms(1) by (rule has_shape_two)
  obtain c d where y: "y_slot = [c, d]" and cd: "length c = f" "length d = f"
      "\<forall>row \<in> set c. length row = w" "\<forall>row \<in> set d. length row = w"
    using assms(2) by (rule has_shape_two)
  obtain mX where mX: "mean_axis0 [a, b] = [mX]" "length mX = f" "\<forall>row \<in> set mX. length row = w"
      "\<forall>k < f. \<forall>t < w. mX ! k ! t
         = (case np_add (a ! k ! t) (b ! k ! t) of Fin s \<Rightarrow> Fin (s / 2) | NonFin \<Rightarrow> NonFin)"
    using mean_axis0_two [OF ab] by blast
  obtain my where my: "mean_axis0 [c, d] = [my]" "length my = f" "\<forall>row \<in> set my. length row = w"
      "\<forall>k < f. \<forall>t < w. my ! k ! t
         = (case np_add (c ! k ! t) (d ! k ! t) of Fin s \<Rightarrow> Fin (s / 2) | NonFin \<Rightarrow> NonFin)"
    using mean_axis0_two [OF cd] by blast
  have bX: "broadcast_to (2, f, w) [mX] = Inr [mX, mX]"
    using broadcast_to_one_channel [OF mX(2,3), of 2] by (simp add: numeral_2_eq_2)
  have bcy: "broadcast_to (2, f, w) [my] = Inr [my, my]"
    using broadcast_to_one_channel [OF my(2,3), of 2] by (simp add: numeral_2_eq_2)
  have "augment (2, f, w) p (X_slot, y_slot) = Inr ([mX, mX], [my, my])"
    using assms(3,4) by (simp add: augment_def X y mX(1) my(1) bX bcy)
  then show ?thesis using mX my X y by auto
qed

lemma augment_shape:
  fixes X_slot y_slot :: "complex npval arr3"
  assumes X: "has_shape X_slot 2 f w" and y: "has_shape y_slot 2 f w"
  shows "\<exists>X' y'. augment (2, f, w) p (X_slot, y_slot) = Inr (X', y')
           \<and> has_shape X' 2 f w \<and> has_shape y' 2 f w"
proof -
  consider "p < 0.5" | "0.5 \<le> p" "p < 0.52" | "0.52 \<le> p" "p < 0.54" | "0.54 \<le> p"
    by linarith
  then show ?thesis
  proof cases
    case 1
    have "augment (2, f, w) p (X_slot, y_slot) = Inr (rev X_slot, rev y_slot)"
      using 1 X y by (simp add: augment_def broadcast_to_same has_shape_rev)
    then show ?thesis using X y by (simp add: has_shape_rev)
  next
    case 2
    then obtain mX my where "augment (2, f, w) p (X_slot, y_slot) = Inr ([mX, mX], [my, my])"
        "length mX = f" "\<forall>row \<in> set mX. length row = w"
        "length my = f" "\<forall>row \<in> set my. length row = w"
      using augment_mean_branch [OF X y] by blast
    then show ?thesis by (simp add: has_shape_pair)
  next
    case 3
    have "augment (2, f, w) p (X_slot, y_slot) = Inr (y_slot, y_slot)"
      using 3 y by (simp add: augment_def broadcast_to_same)
    then show ?thesis using y by simp
  next
    case 4
    have "augment (2, f, w) p (X_slot, y_slot) = Inr (X_slot, y_slot)"
      using 4 by (simp add: augment_def)
    then show ?thesis using X y by simp
  qed
qed

lemma crop_shape:
  assumes "has_shape P c f W" and "0 \<le> s" and "0 \<le> cropsize" and "nat s + nat cropsize \<le> W"
  shows "has_shape (map (map (py_slice s (s + cropsize))) P) c f (nat cropsize)"
  using assms by (auto simp: has_shape_def py_slice_nonneg)

lemma pad_shape:
  assumes "has_shape A c f w" and "0 \<le> l" and "0 \<le> r"
  shows "\<exists>P. pad_time z l r A = Inr P \<and> has_shape P c f (nat l + w + nat r)"
  using assms by (auto simp: has_shape_def pad_time_def)

lemma randint_range:
  assumes "0 < patches" and "0 < high"
  shows "\<exists>starts. randint raw 0 high patches = Inr starts \<and> length starts = nat patches
           \<and> (\<forall>j < nat patches. 0 \<le> starts ! j \<and> starts ! j < high)"
  using assms by (simp add: randint_def)

lemma has_shape4_update:
  assumes "has_shape4 D n c f w" and "has_shape A c f w"
  shows "has_shape4 (D[k := A]) n c f w"
  using assms set_update_subset_insert [of D k A] by (auto simp: has_shape4_def)

lemma has_shape4_nth: "has_shape4 D n c f w \<Longrightarrow> k < n \<Longrightarrow> has_shape (D ! k) c f w"
  by (simp add: has_shape4_def)

lemma zeros4_shape:
  assumes "0 \<le> a" and "0 \<le> b" and "0 \<le> c" and "0 \<le> d"
  shows "\<exists>D. zeros4 a b c d = Inr D \<and> has_shape4 D (nat a) (nat b) (nat c) (nat d)"
  using assms by (simp add: zeros4_def has_shape4_def has_shape_def)




lemma patch_step_ok:
  assumes Xd: "has_shape4 Xd n 2 NF (nat cropsize)" and yd: "has_shape4 yd n 2 NF (nat cropsize)"
    and idx: "int i * patches + int j < int n" and patches: "0 \<le> patches"
    and Xp: "has_shape X_pad 2 NF PW" and yp: "has_shape y_pad 2 NF PW"
    and s0: "0 \<le> starts ! j" and s1: "starts ! j + cropsize \<le> int PW"
    and e: "ends ! j = starts ! j + cropsize" and cs: "0 \<le> cropsize"
  shows "\<exists>Xd' yd'. patch_step g (2, NF, nat cropsize) patches i X_pad y_pad starts ends j (Xd, yd)
                      = Inr (Xd', yd')
           \<and> has_shape4 Xd' n 2 NF (nat cropsize) \<and> has_shape4 yd' n 2 NF (nat cropsize)"
proof -
  let ?idx = "int i * patches + int j"
  have i0: "0 \<le> ?idx" using patches by simp
  have len: "length Xd = n" "length yd = n" using Xd yd by (simp_all add: has_shape4_def)
  have fit: "nat (starts ! j) + nat cropsize \<le> PW" using s0 s1 cs by linarith
  have cX: "has_shape (map (map (py_slice (starts ! j) (ends ! j))) X_pad) 2 NF (nat cropsize)"
    unfolding e using Xp s0 cs fit by (rule crop_shape)
  have cy: "has_shape (map (map (py_slice (starts ! j) (ends ! j))) y_pad) 2 NF (nat cropsize)"
    unfolding e using yp s0 cs fit by (rule crop_shape)
  obtain X' y' where aug: "augment (2, NF, nat cropsize) (uniform g i j)
        (map (map (py_slice (starts ! j) (ends ! j))) X_pad,
         map (map (py_slice (starts ! j) (ends ! j))) y_pad) = Inr (X', y')"
      and sh: "has_shape X' 2 NF (nat cropsize)" "has_shape y' 2 NF (nat cropsize)"
    using augment_shape [OF cX cy] by blast
  have "patch_step g (2, NF, nat cropsize) patches i X_pad y_pad starts ends j (Xd, yd)
          = Inr (Xd[nat ?idx := X'], yd[nat ?idx := y'])"
    using i0 idx len by (simp add: patch_step_def Let_def broadcast_to_same [OF cX]
        broadcast_to_same [OF cy] aug)
  moreover have "has_shape4 (Xd[nat ?idx := X']) n 2 NF (nat cropsize)"
    using Xd sh(1) by (rule has_shape4_update)
  moreover have "has_shape4 (yd[nat ?idx := y']) n 2 NF (nat cropsize)"
    using yd sh(2) by (rule has_shape4_update)
  ultimately show ?thesis by blast
qed

lemma amax_c_ok: "entries X \<noteq> [] \<Longrightarrow> \<exists>m. amax_c X = Inr m"
  by (cases "entries X") (simp_all add: amax_c_def)

lemma file_step_ok:
  assumes Xd: "has_shape4 Xd n 2 (nat (n_fft div 2 + 1)) (nat cropsize)"
    and yd: "has_shape4 yd n 2 (nat (n_fft div 2 + 1)) (nat cropsize)"
    and ld: "cache_or_load X_path y_path sr hop_length n_fft = (X, y)"
    and X: "has_shape X 2 (nat (n_fft div 2 + 1)) W"
    and y: "has_shape y 2 (nat (n_fft div 2 + 1)) W"
    and nfft: "0 \<le> n_fft" and off: "0 \<le> off" and roi: "2 * off < cropsize"
    and W: "cropsize - 2 * off \<le> int W"
    and patches: "0 < patches" and room: "(int i + 1) * patches \<le> int n"
  shows "\<exists>Xd' yd'. file_step cache_or_load g cropsize patches sr hop_length n_fft off
                      (i, X_path, y_path) (Xd, yd) = Inr (Xd', yd')
           \<and> has_shape4 Xd' n 2 (nat (n_fft div 2 + 1)) (nat cropsize)
           \<and> has_shape4 yd' n 2 (nat (n_fft div 2 + 1)) (nat cropsize)"
proof -
  let ?NF = "nat (n_fft div 2 + 1)"
  let ?roi = "cropsize - 2 * off"
  let ?r = "?roi - int W mod ?roi + off"
  have NF: "0 < ?NF" using nfft by simp
  have Wpos: "0 < W" using W roi by simp
  obtain X_max where mX: "amax_c X = Inr X_max"
    using amax_c_ok entries_nonempty [OF X _ NF Wpos] by fastforce
  obtain y_max where my: "amax_c y = Inr y_max"
    using amax_c_ok entries_nonempty [OF y _ NF Wpos] by fastforce
  define coef where "coef = cmax X_max y_max"
  have nt: "ntime X = W" by (rule ntime_has_shape [OF X _ NF]) simp
  have pd: "make_padding (int W) cropsize off = Inr (off, ?r, ?roi)"
    using roi by (simp add: make_padding_def Let_def mult.commute)
  have r0: "0 \<le> ?r"
  proof -
    have "int W mod ?roi < ?roi" using roi by simp
    then show ?thesis using off by simp
  qed
  let ?PW = "nat off + W + nat ?r"
  have "has_shape (map (map (map (\<lambda>x. np_div x coef))) X) 2 ?NF W"
    using X by (rule has_shape_map)
  then have "\<exists>P. pad_time (Fin 0) off ?r (map (map (map (\<lambda>x. np_div x coef))) X) = Inr P
                 \<and> has_shape P 2 ?NF ?PW"
    using off r0 by (rule pad_shape)
  then obtain X_pad where Xp: "pad_time (Fin 0) off ?r (map (map (map (\<lambda>x. np_div x coef))) X) = Inr X_pad"
      "has_shape X_pad 2 ?NF ?PW"
    by (elim exE conjE)
  have "has_shape (map (map (map (\<lambda>x. np_div x coef))) y) 2 ?NF W"
    using y by (rule has_shape_map)
  then have "\<exists>P. pad_time (Fin 0) off ?r (map (map (map (\<lambda>x. np_div x coef))) y) = Inr P
                 \<and> has_shape P 2 ?NF ?PW"
    using off r0 by (rule pad_shape)
  then obtain y_pad where yp: "pad_time (Fin 0) off ?r (map (map (map (\<lambda>x. np_div x coef))) y) = Inr y_pad"
      "has_shape y_pad 2 ?NF ?PW"
    by (elim exE conjE)
  have ntp: "ntime X_pad = ?PW" by (rule ntime_has_shape [OF Xp(2) _ NF]) simp
  let ?high = "int ?PW - cropsize"
  have high_eq: "?high = int W - int W mod ?roi" using off r0 by simp
  have "int W mod ?roi < ?roi" using roi by simp
  then have high: "0 < ?high" using W high_eq by linarith
  have "\<exists>starts. randint (raw_int g i) 0 ?high patches = Inr starts \<and> length starts = nat patches
           \<and> (\<forall>j < nat patches. 0 \<le> starts ! j \<and> starts ! j < ?high)"
    using patches high by (rule randint_range)
  then obtain starts where st: "randint (raw_int g i) 0 ?high patches = Inr starts"
      "length starts = nat patches" "\<forall>j < nat patches. 0 \<le> starts ! j \<and> starts ! j < ?high"
    by (elim exE conjE)
  define ends where "ends = map (\<lambda>s. s + cropsize) starts"
  have cs: "0 \<le> cropsize" using off roi by simp
  have loop: "\<exists>s'. for_each (patch_step g (2, ?NF, nat cropsize) patches i X_pad y_pad starts ends)
                  [0..<nat patches] (Xd, yd) = Inr s'
               \<and> (case s' of (Xd', yd') \<Rightarrow> has_shape4 Xd' n 2 ?NF (nat cropsize)
                                           \<and> has_shape4 yd' n 2 ?NF (nat cropsize))"
  proof (rule for_each_invariant)
    show "case (Xd, yd) of (Xd', yd') \<Rightarrow> has_shape4 Xd' n 2 ?NF (nat cropsize)
                                           \<and> has_shape4 yd' n 2 ?NF (nat cropsize)"
      using Xd yd by simp
  next
    fix j and s :: "complex npval arr3 list \<times> complex npval arr3 list"
    assume j: "j \<in> set [0..<nat patches]"
      and inv: "case s of (Xd', yd') \<Rightarrow> has_shape4 Xd' n 2 ?NF (nat cropsize)
                                           \<and> has_shape4 yd' n 2 ?NF (nat cropsize)"
    obtain A B where s: "s = (A, B)" by (cases s)
    have jl: "j < nat patches" using j by simp
    have "int i * patches + int j < (int i + 1) * patches"
      using jl by (simp add: algebra_simps)
    then have idx: "int i * patches + int j < int n" using room by linarith
    have s0: "0 \<le> starts ! j" and s1: "starts ! j + cropsize \<le> int ?PW"
      using st(3) jl by auto
    have e: "ends ! j = starts ! j + cropsize"
      using jl st(2) by (simp add: ends_def)
    have inv': "has_shape4 A n 2 ?NF (nat cropsize)" "has_shape4 B n 2 ?NF (nat cropsize)"
      using inv by (simp_all add: s)
    have p0: "0 \<le> patches" using patches by simp
    have "\<exists>Xd' yd'. patch_step g (2, ?NF, nat cropsize) patches i X_pad y_pad starts ends j (A, B)
                      = Inr (Xd', yd')
           \<and> has_shape4 Xd' n 2 ?NF (nat cropsize) \<and> has_shape4 yd' n 2 ?NF (nat cropsize)"
      by (rule patch_step_ok [OF inv'(1) inv'(2) idx p0 Xp(2) yp(2) s0 s1 e cs])
    then show "\<exists>s'. patch_step g (2, ?NF, nat cropsize) patches i X_pad y_pad starts ends j s = Inr s'
                 \<and> (case s' of (Xd', yd') \<Rightarrow> has_shape4 Xd' n 2 ?NF (nat cropsize)
                                           \<and> has_shape4 yd' n 2 ?NF (nat cropsize))"
      unfolding s by auto
  qed
  have "file_step cache_or_load g cropsize patches sr hop_length n_fft off (i, X_path, y_path) (Xd, yd)
          = for_each (patch_step g (2, ?NF, nat cropsize) patches i X_pad y_pad starts ends)
                  [0..<nat patches] (Xd, yd)"
    unfolding file_step_def
    by (simp only: prod.case ld mX my sum.case Let_def coef_def [symmetric] nt pd Xp(1) yp(1)
        ntp st(1) ends_def [symmetric])
  with loop show ?thesis by auto
qed

text \<open>
  Claim C7, as amended. For patches_per_file >= 1, n_fft >= 0, offset >= 0 and
  cropsize > 2 * offset, and a file pair list in which every pair loads as two stereo
  spectrograms with n_fft div 2 + 1 bins and one common time width of at least
  roi_size = cropsize - 2 * offset, make_training_set returns two arrays of shape
  [patches_per_file * n_files, 2, n_fft div 2 + 1, cropsize].
\<close>

theorem make_training_set_shape:
  assumes patches: "1 \<le> patches" and nfft: "0 \<le> n_fft" and off: "0 \<le> off"
    and roi: "2 * off < cropsize"
    and files: "\<forall>(X_path, y_path) \<in> set filelist. \<exists>W.
        has_shape (fst (cache_or_load X_path y_path sr hop_length n_fft)) 2 (nat (n_fft div 2 + 1)) W
        \<and> has_shape (snd (cache_or_load X_path y_path sr hop_length n_fft)) 2 (nat (n_fft div 2 + 1)) W
        \<and> cropsize - 2 * off \<le> int W"
  shows "\<exists>X_dataset y_dataset.
           make_training_set cache_or_load g filelist cropsize patches sr hop_length n_fft off
             = Inr (X_dataset, y_dataset)
           \<and> has_shape4 X_dataset (nat patches * length filelist) 2
                 (nat (n_fft div 2 + 1)) (nat cropsize)
           \<and> has_shape4 y_dataset (nat patches * length filelist) 2
                 (nat (n_fft div 2 + 1)) (nat cropsize)"
proof -
  let ?NF = "nat (n_fft div 2 + 1)"
  let ?n = "nat patches * length filelist"
  let ?len = "patches * int (length filelist)"
  have len: "nat ?len = ?n" using patches by (simp add: nat_mult_distrib)
  have "0 \<le> ?len" and "0 \<le> n_fft div 2 + 1" and "0 \<le> cropsize"
    using patches nfft off roi by simp_all
  then have "\<exists>D. zeros4 ?len 2 (n_fft div 2 + 1) cropsize = Inr D
               \<and> has_shape4 D (nat ?len) (nat 2) ?NF (nat cropsize)"
    by (intro zeros4_shape) simp_all
  then obtain D where D: "zeros4 ?len 2 (n_fft div 2 + 1) cropsize = Inr D"
      "has_shape4 D ?n 2 ?NF (nat cropsize)"
    using len by auto
  have loop: "\<exists>s'. for_each (file_step cache_or_load g cropsize patches sr hop_length n_fft off)
                  (enumerate 0 filelist) (D, D) = Inr s'
               \<and> (case s' of (Xd', yd') \<Rightarrow> has_shape4 Xd' ?n 2 ?NF (nat cropsize)
                                           \<and> has_shape4 yd' ?n 2 ?NF (nat cropsize))"
  proof (rule for_each_invariant)
    show "case (D, D) of (Xd', yd') \<Rightarrow> has_shape4 Xd' ?n 2 ?NF (nat cropsize)
                                           \<and> has_shape4 yd' ?n 2 ?NF (nat cropsize)"
      using D(2) by simp
  next
    fix entry and s :: "complex npval arr3 list \<times> complex npval arr3 list"
    assume entry: "entry \<in> set (enumerate 0 filelist)"
      and inv: "case s of (Xd', yd') \<Rightarrow> has_shape4 Xd' ?n 2 ?NF (nat cropsize)
                                           \<and> has_shape4 yd' ?n 2 ?NF (nat cropsize)"
    obtain i X_path y_path where e: "entry = (i, X_path, y_path)" by (cases entry) auto
    obtain A B where s: "s = (A, B)" by (cases s)
    have i: "i < length filelist" and nth: "filelist ! i = (X_path, y_path)"
      using entry by (auto simp: e in_set_enumerate_eq)
    have mem: "(X_path, y_path) \<in> set filelist"
      using i nth by (metis nth_mem)
    obtain X y where ld: "cache_or_load X_path y_path sr hop_length n_fft = (X, y)"
      by (cases "cache_or_load X_path y_path sr hop_length n_fft")
    from files mem ld obtain W where W: "has_shape X 2 ?NF W" "has_shape y 2 ?NF W"
        "cropsize - 2 * off \<le> int W"
      by fastforce
    have inv': "has_shape4 A ?n 2 ?NF (nat cropsize)" "has_shape4 B ?n 2 ?NF (nat cropsize)"
      using inv by (simp_all add: s)
    have p0: "0 < patches" using patches by simp
    have "(int i + 1) \<le> int (length filelist)" using i by simp
    then have "(int i + 1) * patches \<le> int (length filelist) * patches"
      using p0 by (intro mult_right_mono) simp_all
    then have room: "(int i + 1) * patches \<le> int ?n"
      using p0 by (simp add: mult.commute)
    have "\<exists>Xd' yd'. file_step cache_or_load g cropsize patches sr hop_length n_fft off
                      (i, X_path, y_path) (A, B) = Inr (Xd', yd')
           \<and> has_shape4 Xd' ?n 2 ?NF (nat cropsize)
           \<and> has_shape4 yd' ?n 2 ?NF (nat cropsize)"
      using inv' ld W nfft off roi p0 room
      by (intro file_step_ok [where X = X and y = y and W = W])
    then show "\<exists>s'. file_step cache_or_load g cropsize patches sr hop_length n_fft off entry s = Inr s'
                 \<and> (case s' of (Xd', yd') \<Rightarrow> has_shape4 Xd' ?n 2 ?NF (nat cropsize)
                                           \<and> has_shape4 yd' ?n 2 ?NF (nat cropsize))"
      unfolding e s by auto
  qed
  have "make_training_set cache_or_load g filelist cropsize patches sr hop_length n_fft off
          = for_each (file_step cache_or_load g cropsize patches sr hop_length n_fft off)
                  (enumerate 0 filelist) (D, D)"
    by (simp add: make_training_set_def Let_def D(1))
  with loop show ?thesis by auto
qed

theorem make_training_set_shape_witness:
  "\<exists>X_dataset y_dataset.
     make_training_set example_cache (example_rng 0.7) [(''a.wav'', ''b.wav''), (''c.wav'', ''d.wav'')]
         2 3 44100 1024 2 0
       = Inr (X_dataset, y_dataset)
     \<and> has_shape4 X_dataset 6 2 2 2 \<and> has_shape4 y_dataset 6 2 2 2"
  using make_training_set_shape [of 3 2 0 2 "[(''a.wav'', ''b.wav''), (''c.wav'', ''d.wav'')]"
      example_cache 44100 1024 "example_rng 0.7"]
  by (simp add: example_cache_def has_shape_def)

lemma ntime_pad_le:
  "ntime (map (map (\<lambda>row. replicate a z @ row @ replicate b z)) A) \<le> a + ntime A + b"
  by (cases A; cases "hd A") (auto simp: ntime_def)

lemma randint_empty_range: "patches \<noteq> 0 \<Longrightarrow> high \<le> low \<Longrightarrow> randint raw low high patches = Inl ValueError"
  by (simp add: randint_def)

lemma file_step_short:
  assumes patches: "1 \<le> patches" and off: "0 \<le> off" and roi: "2 * off < cropsize"
    and short: "int (ntime (fst (cache_or_load X_path y_path sr hop_length n_fft))) < cropsize - 2 * off"
  shows "\<exists>e. file_step cache_or_load g cropsize patches sr hop_length n_fft off
               (i, X_path, y_path) s = Inl e"
proof -
  obtain X y where ld: "cache_or_load X_path y_path sr hop_length n_fft = (X, y)"
    by (cases "cache_or_load X_path y_path sr hop_length n_fft")
  let ?W = "int (ntime X)"
  let ?roi = "cropsize - 2 * off"
  have W: "?W < ?roi" using short ld by simp
  then have md: "?W mod ?roi = ?W" by simp
  have pd: "make_padding ?W cropsize off = Inr (off, ?roi - ?W + off, ?roi)"
    using roi md by (simp add: make_padding_def Let_def mult.commute)
  have r0: "0 \<le> ?roi - ?W + off" using W off by simp
  show ?thesis
  proof (cases "amax_c X")
    case (Inl e)
    then show ?thesis by (simp add: file_step_def ld)
  next
    case mX: (Inr X_max)
    show ?thesis
    proof (cases "amax_c y")
      case (Inl e)
      then show ?thesis by (simp add: file_step_def ld mX)
    next
      case my: (Inr y_max)
      define coef where "coef = cmax X_max y_max"
      let ?N = "map (map (map (\<lambda>x. np_div x coef))) X"
      let ?P = "map (map (\<lambda>row. replicate (nat off) (Fin 0) @ row @ replicate (nat (?roi - ?W + off)) (Fin 0))) ?N"
      have padX: "pad_time (Fin 0) off (?roi - ?W + off) ?N = Inr ?P"
        using off r0 by (simp add: pad_time_def)
      obtain y_pad where pady: "pad_time (Fin 0) off (?roi - ?W + off)
          (map (map (map (\<lambda>x. np_div x coef))) y) = Inr y_pad"
        using off r0 by (simp add: pad_time_def)
      have "ntime ?N = ntime X"
        by (cases X; cases "hd X") (auto simp: ntime_def)
      then have "ntime ?P \<le> nat off + ntime X + nat (?roi - ?W + off)"
        using ntime_pad_le [of "nat off" "Fin 0" "nat (?roi - ?W + off)" ?N] by simp
      then have "int (ntime ?P) \<le> cropsize" using off r0 by linarith
      then have "int (ntime ?P) - cropsize \<le> 0" by simp
      moreover have "patches \<noteq> 0" using patches by simp
      ultimately have "randint (raw_int g i) 0 (int (ntime ?P) - cropsize) patches = Inl ValueError"
        by (intro randint_empty_range)
      then have "file_step cache_or_load g cropsize patches sr hop_length n_fft off
               (i, X_path, y_path) s = Inl ValueError"
        unfolding file_step_def
        by (simp only: prod.case ld mX my sum.case Let_def coef_def [symmetric] pd padX pady)
      then show ?thesis by blast
    qed
  qed
qed

text \<open>
  Claim C9, as amended. With patches_per_file >= 1, offset >= 0 and cropsize > 2 * offset, a file
  pair whose mixture spectrogram has a time width below roi_size = cropsize - 2 * offset
  makes make_training_set fail, whatever else the list holds: the padded width is
  exactly cropsize, and drawing start offsets from the empty range [0, 0) raises
  ValueError.
\<close>

theorem make_training_set_short_file:
  assumes patches: "1 \<le> patches" and off: "0 \<le> off" and roi: "2 * off < cropsize"
    and mem: "(X_path, y_path) \<in> set filelist"
    and W: "W = int (ntime (fst (cache_or_load X_path y_path sr hop_length n_fft)))"
    and short: "W < cropsize - 2 * off"
  shows "(\<exists>e. make_training_set cache_or_load g filelist cropsize patches sr hop_length n_fft off
                = Inl e)
         \<and> (\<exists>l r. make_padding W cropsize off = Inr (l, r, cropsize - 2 * off)
                \<and> W + l + r = cropsize)
         \<and> randint (raw_int g i) 0 (cropsize - cropsize) patches = Inl ValueError"
proof -
  have md: "W mod (cropsize - 2 * off) = W" using short W by simp
  have pd: "make_padding W cropsize off
              = Inr (off, cropsize - 2 * off - W + off, cropsize - 2 * off)"
    using roi md by (simp add: make_padding_def Let_def mult.commute)
  have two: "\<exists>l r. make_padding W cropsize off = Inr (l, r, cropsize - 2 * off)
                \<and> W + l + r = cropsize"
    using pd by simp
  have three: "randint (raw_int g i) 0 (cropsize - cropsize) patches = Inl ValueError"
    using patches by (intro randint_empty_range) simp_all
  obtain k where "k < length filelist" and "filelist ! k = (X_path, y_path)"
    using mem by (auto simp: in_set_conv_nth)
  then have k: "(k, X_path, y_path) \<in> set (enumerate 0 filelist)"
    by (simp add: in_set_enumerate_eq)
  have fails: "\<And>s. \<exists>e. file_step cache_or_load g cropsize patches sr hop_length n_fft off
               (k, X_path, y_path) s = Inl e"
    using patches off roi short [unfolded W] by (rule file_step_short)
  have one: "\<exists>e. make_training_set cache_or_load g filelist cropsize patches sr hop_length n_fft off
                = Inl e"
  proof (cases "zeros4 (patches * int (length filelist)) 2 (n_fft div 2 + 1) cropsize")
    case (Inl e)
    then show ?thesis by (simp add: make_training_set_def Let_def)
  next
    case (Inr D)
    have "\<exists>e. for_each (file_step cache_or_load g cropsize patches sr hop_length n_fft off)
             (enumerate 0 filelist) (D, D) = Inl e"
      using k fails by (rule for_each_fails)
    then show ?thesis by (simp add: make_training_set_def Let_def Inr)
  qed
  from one two three show ?thesis by blast
qed

theorem make_training_set_short_file_witness:
  "(\<exists>e. make_training_set example_cache (example_rng 0.7) [(''a.wav'', ''b.wav'')]
           8 1 44100 1024 2 2 = Inl e)
   \<and> (\<exists>l r. make_padding 3 8 2 = Inr (l, r, 8 - 2 * 2) \<and> 3 + l + r = 8)
   \<and> randint (raw_int (example_rng 0.7) 0) 0 (8 - 8) 1 = Inl ValueError"
  using make_training_set_short_file [of 1 2 8 "''a.wav''" "''b.wav''" "[(''a.wav'', ''b.wav'')]"
      3 example_cache 44100 1024 2 "example_rng 0.7" 0]
  by (simp add: example_cache_def ntime_def)

text \<open>
  Without cropsize > 2 * offset the failure is not certain: for cropsize = 2 * offset
  the stride roi_size is cropsize itself, the padded width exceeds cropsize, and a file
  of width 3 < roi_size = 4 yields its patch.
\<close>

theorem make_training_set_degenerate_counterexample:
  "make_padding 3 4 2 = Inr (2, 3, 4)
   \<and> make_training_set example_cache (example_rng 0.7) [(''a.wav'', ''b.wav'')] 4 1 44100 1024 2 2
       = Inr ([[[[Fin 0, Fin (1/4), Fin (3/4), Fin (1/2)], [Fin 0, Fin (1/2), Fin 0, Fin (1/2)]],
                [[Fin 0, Fin (3/4), Fin (1/4), Fin 0], [Fin 0, Fin 0, Fin (1/2), Fin 0]]]],
              [[[[Fin 0, Fin 0, Fin (1/2), Fin 1], [Fin 0, Fin (1/4), Fin (1/4), Fin (1/4)]],
                [[Fin 0, Fin 1, Fin (1/2), Fin 0], [Fin 0, Fin (1/4), Fin (1/4), Fin (3/4)]]]])"
  by code_simp

text \<open>
  Claim C7 as first stated, for every file pair list: a file of three frames with
  cropsize 4 and offset 0 gives no arrays at all.
\<close>

theorem make_training_set_short_counterexample:
  "make_training_set example_cache (example_rng 0.7) [(''a.wav'', ''b.wav'')] 4 1 44100 1024 2 0
     = Inl ValueError"
  by code_simp

end
